theory Spec2Isabelle
  imports Complex_Main "HOL-Library.Multiset"
begin

section \<open>JavaScript strings\<close>

text \<open>
  A JavaScript string is a sequence of UTF-16 code units; a code unit is modelled as a
  natural number. \<open>js\<close> turns an ASCII literal into such a sequence.
\<close>

type_synonym jsstring = "nat list"

definition js :: "string \<Rightarrow> jsstring" where
  "js s = map of_char s"

text \<open>
  The code units matched by \<open>\s\<close> in a regular expression and stripped by
  \<open>String.prototype.trim\<close>: the WhiteSpace and LineTerminator productions of ECMAScript.
\<close>

definition isWhiteSpace :: "nat \<Rightarrow> bool" where
  "isWhiteSpace c =
     ((9 \<le> c \<and> c \<le> 13) \<or> c = 32 \<or> c = 160 \<or> c = 5760 \<or> (8192 \<le> c \<and> c \<le> 8202) \<or>
      c = 8232 \<or> c = 8233 \<or> c = 8239 \<or> c = 8287 \<or> c = 12288 \<or> c = 65279)"

definition trim :: "jsstring \<Rightarrow> jsstring" where
  "trim s = rev (dropWhile isWhiteSpace (rev (dropWhile isWhiteSpace s)))"

text \<open>The class \<open>[a-z0-9]\<close>.\<close>

definition isLowerAlnum :: "nat \<Rightarrow> bool" where
  "isLowerAlnum c = ((97 \<le> c \<and> c \<le> 122) \<or> (48 \<le> c \<and> c \<le> 57))"

text \<open>
  \<open>String.prototype.toLowerCase\<close>, on the code units whose lower-case form lies in the
  ASCII range: \<open>A-Z\<close>, U+212A KELVIN SIGN (to \<open>k\<close>) and U+0130 (to \<open>i\<close> followed by
  U+0307). Every other cased letter has a lower-case form of code units from 128 on and is
  left in place here; \<open>normalizeText\<close>, the only caller, replaces such a code unit by a
  space whether it was mapped or not.
\<close>

definition lowerUnit :: "nat \<Rightarrow> jsstring" where
  "lowerUnit c =
     (if 65 \<le> c \<and> c \<le> 90 then [c + 32]
      else if c = 8490 then [107]
      else if c = 304 then [105, 775]
      else [c])"

definition toLowerCase :: "jsstring \<Rightarrow> jsstring" where
  "toLowerCase s = concat (map lowerUnit s)"

text \<open>\<open>.replace(/[^a-z0-9\s]/g, ' ')\<close>\<close>

definition replaceNonAlnum :: "jsstring \<Rightarrow> jsstring" where
  "replaceNonAlnum s = map (\<lambda>c. if isLowerAlnum c \<or> isWhiteSpace c then c else 32) s"

text \<open>\<open>.replace(/\s+/g, ' ')\<close>: every maximal run of white space becomes one space.\<close>

function collapseWhitespace :: "jsstring \<Rightarrow> jsstring" where
  "collapseWhitespace [] = []"
| "collapseWhitespace (c # cs) =
     (if isWhiteSpace c then 32 # collapseWhitespace (dropWhile isWhiteSpace cs)
      else c # collapseWhitespace cs)"
  by pat_completeness auto
termination
  by (relation "measure length") (auto simp: le_imp_less_Suc length_dropWhile_le)

definition normalizeText :: "jsstring \<Rightarrow> jsstring" where
  "normalizeText v = trim (collapseWhitespace (replaceNonAlnum (toLowerCase v)))"

text \<open>\<open>String.prototype.split\<close> with a one-unit separator: the empty string gives one empty piece.\<close>

fun split_on :: "nat \<Rightarrow> jsstring \<Rightarrow> jsstring list" where
  "split_on sep [] = [[]]"
| "split_on sep (c # cs) =
     (if c = sep then [] # split_on sep cs
      else (case split_on sep cs of
              [] \<Rightarrow> [[c]]
            | p # ps \<Rightarrow> (c # p) # ps))"

definition tokenize :: "jsstring \<Rightarrow> jsstring list" where
  "tokenize v = filter (\<lambda>t. length t > 2) (split_on 32 (normalizeText v))"

section \<open>Server state\<close>

record source =
  src_title :: jsstring
  src_url :: jsstring

record cache_item =
  answer :: jsstring
  sources :: "source list"
  timestamp :: int

record faq =
  faq_id :: jsstring
  prompts :: "jsstring list"
  faq_answer :: jsstring
  faq_sources :: "source list"

text \<open>
  A document of \<open>rag/documents.json\<close>, with the fields that the server and the embedding
  builder read.
\<close>

record doc =
  doc_id :: jsstring
  title :: jsstring
  url :: jsstring
  content :: jsstring

text \<open>
  The constants read from the environment at start-up. \<open>ttl_hours_env\<close> and
  \<open>context_chunks_env\<close> are the parsed integers; the source clamps both from below by 1.
\<close>

record config =
  CHATBOT_ENABLED :: bool
  OPENAI_API_KEY :: jsstring
  ttl_hours_env :: int
  context_chunks_env :: int

definition CHATBOT_CACHE_TTL_HOURS :: "config \<Rightarrow> int" where
  "CHATBOT_CACHE_TTL_HOURS cfg = max 1 (ttl_hours_env cfg)"

definition CHATBOT_CONTEXT_CHUNKS :: "config \<Rightarrow> nat" where
  "CHATBOT_CONTEXT_CHUNKS cfg = nat (max 1 (context_chunks_env cfg))"

text \<open>A Map filled by \<open>set\<close> in list order: a later entry of the same key wins.\<close>

definition mapGet :: "('k \<times> 'v) list \<Rightarrow> 'k \<Rightarrow> 'v option" where
  "mapGet entries k = map_of (rev entries) k"

text \<open>
  The module-level variables. \<open>chatCache\<close> is the in-memory object, given by its own
  properties (what it inherits from \<open>Object.prototype\<close> is added where the object is
  read); \<open>cacheFile\<close> is the content of \<open>cache/chat-cache.json\<close>.
\<close>

record server =
  ragDocuments :: "doc list"
  ragFaqs :: "faq list"
  ragEmbeddingsById :: "(jsstring \<times> real list) list option"
  chatCache :: "jsstring \<rightharpoonup> cache_item"
  cacheFile :: "jsstring \<rightharpoonup> cache_item"

text \<open>
  What one request observes of the outside: the clock at the cache read and at the cache
  write, whether \<open>fs.writeFileSync\<close> succeeds, the outcome of the embedding call
  (\<open>Inl\<close> when it throws), the outcome of the completion call (the message content, if
  any), and the rounding of the Number arithmetic.
\<close>

record world =
  now_read :: int
  now_write :: int
  write_ok :: bool
  embedding_api :: "jsstring \<Rightarrow> string + real list"
  completion_api :: "jsstring \<Rightarrow> (doc \<times> real) list \<Rightarrow> string + jsstring option"
  rnd :: "real \<Rightarrow> real"

section \<open>Answer cache\<close>

definition saveChatCache :: "world \<Rightarrow> server \<Rightarrow> server" where
  "saveChatCache w st = (if write_ok w then st\<lparr>cacheFile := chatCache st\<rparr> else st)"

definition ttlMs :: "config \<Rightarrow> int" where
  "ttlMs cfg = CHATBOT_CACHE_TTL_HOURS cfg * 60 * 60 * 1000"

text \<open>
  \<open>chatCache\<close> is a plain object (\<open>{}\<close>, or what \<open>JSON.parse\<close> returns), so
  \<open>chatCache[cacheKey]\<close> looks the key up in \<open>Object.prototype\<close> when the object has no
  own property of that name. These are the property names of \<open>Object.prototype\<close>; the
  value of each is a function, and the prototype object itself for \<open>__proto__\<close>.
\<close>

definition objectPrototypeNames :: "jsstring list" where
  "objectPrototypeNames =
     [js ''constructor'', js ''__defineGetter__'', js ''__defineSetter__'',
      js ''hasOwnProperty'', js ''__lookupGetter__'', js ''__lookupSetter__'',
      js ''isPrototypeOf'', js ''propertyIsEnumerable'', js ''toString'', js ''valueOf'',
      js ''__proto__'', js ''toLocaleString'']"

text \<open>
  The value of \<open>chatCache[cacheKey]\<close> when it is not \<open>undefined\<close>: an entry of the cache,
  or a value inherited from \<open>Object.prototype\<close>.
\<close>

datatype cache_value =
  Entry cache_item
| Inherited

definition cacheLookup :: "server \<Rightarrow> jsstring \<Rightarrow> cache_value option" where
  "cacheLookup st cacheKey =
     (case chatCache st cacheKey of
        Some item \<Rightarrow> Some (Entry item)
      | None \<Rightarrow> if cacheKey \<in> set objectPrototypeNames then Some Inherited else None)"

text \<open>
  An inherited value is truthy and has no \<open>timestamp\<close>: \<open>Date.now() - undefined\<close> is NaN,
  the comparison with \<open>ttlMs\<close> is false, and the value is returned as it is.
\<close>

definition getCachedAnswer :: "config \<Rightarrow> world \<Rightarrow> server \<Rightarrow> jsstring \<Rightarrow> cache_value option \<times> server" where
  "getCachedAnswer cfg w st cacheKey =
     (case cacheLookup st cacheKey of
        None \<Rightarrow> (None, st)
      | Some Inherited \<Rightarrow> (Some Inherited, st)
      | Some (Entry item) \<Rightarrow>
          if now_read w - timestamp item > ttlMs cfg
          then (None, saveChatCache w (st\<lparr>chatCache := (chatCache st)(cacheKey := None)\<rparr>))
          else (Some (Entry item), st))"

text \<open>
  The assignment \<open>chatCache[cacheKey] = {...}\<close> defines an own property. (The one key for
  which it would not, \<open>__proto__\<close>, is never a cache key of the endpoint: the key is
  normalized text, which holds no underscore.)
\<close>

definition setCachedAnswer :: "world \<Rightarrow> server \<Rightarrow> jsstring \<Rightarrow> jsstring \<Rightarrow> source list \<Rightarrow> server" where
  "setCachedAnswer w st cacheKey ans srcs =
     saveChatCache w
       (st\<lparr>chatCache := (chatCache st)(cacheKey \<mapsto>
          \<lparr>answer = ans, sources = srcs, timestamp = now_write w\<rparr>)\<rparr>)"

section \<open>Guardrail filter\<close>

text \<open>The class \<open>\w\<close>, which decides the word boundary \<open>\b\<close>.\<close>

definition isWordChar :: "nat \<Rightarrow> bool" where
  "isWordChar c = ((48 \<le> c \<and> c \<le> 57) \<or> (65 \<le> c \<and> c \<le> 90) \<or> c = 95 \<or> (97 \<le> c \<and> c \<le> 122))"

text \<open>The code units that \<open>.\<close> does not match.\<close>

definition isLineTerminator :: "nat \<Rightarrow> bool" where
  "isLineTerminator c = (c = 10 \<or> c = 13 \<or> c = 8232 \<or> c = 8233)"

text \<open>
  \<open>\b\<close> between the code unit before the current position (if any) and the rest of the
  input: exactly one side is a word character.
\<close>

definition wordBoundary :: "nat option \<Rightarrow> jsstring \<Rightarrow> bool" where
  "wordBoundary prev rest =
     ((case prev of None \<Rightarrow> False | Some c \<Rightarrow> isWordChar c) \<noteq>
      (case rest of [] \<Rightarrow> False | c # _ \<Rightarrow> isWordChar c))"

text \<open>
  A pattern letter under the flag \<open>i\<close> (without \<open>u\<close>): a lower-case ASCII letter matches
  itself and its upper-case form; no code unit from 128 on is folded into the ASCII range.
\<close>

definition ciUnit :: "nat \<Rightarrow> nat \<Rightarrow> bool" where
  "ciUnit c p = (c = p \<or> (97 \<le> p \<and> p \<le> 122 \<and> c + 32 = p))"

text \<open>
  A literal matched at the current position: the code unit before the new position and
  the rest of the input after it.
\<close>

fun literalAt :: "jsstring \<Rightarrow> nat option \<Rightarrow> jsstring \<Rightarrow> (nat option \<times> jsstring) option" where
  "literalAt [] prev s = Some (prev, s)"
| "literalAt (p # ps) prev [] = None"
| "literalAt (p # ps) prev (c # cs) = (if ciUnit c p then literalAt ps (Some c) cs else None)"

text \<open>\<open>\b(lit1|lit2|...)\b\<close> matched at the current position.\<close>

fun alternativeAt :: "jsstring list \<Rightarrow> nat option \<Rightarrow> jsstring \<Rightarrow> bool" where
  "alternativeAt [] prev s = False"
| "alternativeAt (lit # lits) prev s =
     (if (case literalAt lit prev s of
            None \<Rightarrow> False
          | Some (prev', rest) \<Rightarrow> wordBoundary prev' rest)
      then True else alternativeAt lits prev s)"

definition wordAt :: "jsstring list \<Rightarrow> nat option \<Rightarrow> jsstring \<Rightarrow> bool" where
  "wordAt lits prev s = (if wordBoundary prev s then alternativeAt lits prev s else False)"

text \<open>\<open>RegExp.prototype.test\<close> without the flag \<open>y\<close>: a match may start at any position.\<close>

fun anywhere :: "(nat option \<Rightarrow> jsstring \<Rightarrow> bool) \<Rightarrow> nat option \<Rightarrow> jsstring \<Rightarrow> bool" where
  "anywhere P prev [] = P prev []"
| "anywhere P prev (c # cs) = (if P prev (c # cs) then True else anywhere P (Some c) cs)"

text \<open>\<open>.*\<close> followed by the rest of the pattern: any run of code units other than line terminators.\<close>

fun dotStarThen :: "(nat option \<Rightarrow> jsstring \<Rightarrow> bool) \<Rightarrow> nat option \<Rightarrow> jsstring \<Rightarrow> bool" where
  "dotStarThen P prev [] = P prev []"
| "dotStarThen P prev (c # cs) =
     (if P prev (c # cs) then True
      else if isLineTerminator c then False
      else dotStarThen P (Some c) cs)"

text \<open>\<open>/\b(dose|dosage|mg|prescribe|prescription|medication plan|treat me|diagnose me)\b/i\<close>\<close>

definition dosageWords :: "jsstring list" where
  "dosageWords =
     [js ''dose'', js ''dosage'', js ''mg'', js ''prescribe'', js ''prescription'',
      js ''medication plan'', js ''treat me'', js ''diagnose me'']"

definition blockedPattern1 :: "jsstring \<Rightarrow> bool" where
  "blockedPattern1 s = anywhere (wordAt dosageWords) None s"

text \<open>\<open>/\bhow much\b.*\b(mg|dose)\b/i\<close>\<close>

definition amountWords :: "jsstring list" where
  "amountWords = [js ''mg'', js ''dose'']"

definition howMuchAt :: "nat option \<Rightarrow> jsstring \<Rightarrow> bool" where
  "howMuchAt prev s =
     (if wordBoundary prev s
      then (case literalAt (js ''how much'') prev s of
              None \<Rightarrow> False
            | Some (prev', rest) \<Rightarrow>
                if wordBoundary prev' rest
                then dotStarThen (wordAt amountWords) prev' rest
                else False)
      else False)"

definition blockedPattern2 :: "jsstring \<Rightarrow> bool" where
  "blockedPattern2 s = anywhere howMuchAt None s"

text \<open>\<open>blockedMedicalPatterns.some((pattern) => pattern.test(question))\<close>\<close>

definition isBlockedMedicalQuestion :: "jsstring \<Rightarrow> bool" where
  "isBlockedMedicalQuestion question =
     (if blockedPattern1 question then True else blockedPattern2 question)"

text \<open>
  Two notions for reasoning about the patterns: a literal that is not empty and ends in a
  lower-case letter, as every literal of the two patterns does, and a position that has no
  word character before it.
\<close>

definition letterEnded :: "jsstring \<Rightarrow> bool" where
  "letterEnded lit = (lit \<noteq> [] \<and> 97 \<le> last lit \<and> last lit \<le> 122)"

definition nonWordBefore :: "nat option \<Rightarrow> bool" where
  "nonWordBefore prev = (case prev of None \<Rightarrow> True | Some c \<Rightarrow> \<not> isWordChar c)"

section \<open>Token sets\<close>

text \<open>
  \<open>new Set(tokens)\<close>: the distinct tokens in the order of their first occurrence. \<open>size\<close>
  is the length of the list, \<open>has\<close> is membership.
\<close>

definition newSet :: "'a list \<Rightarrow> 'a list" where
  "newSet xs = fold (\<lambda>x acc. if x \<in> set acc then acc else acc @ [x]) xs []"

text \<open>\<open>for (const token of qTokens) { if (other.has(token)) overlap += 1; }\<close>\<close>

definition overlapCount :: "jsstring list \<Rightarrow> jsstring list \<Rightarrow> nat" where
  "overlapCount qTokens other =
     fold (\<lambda>token overlap. if token \<in> set other then overlap + 1 else overlap) qTokens 0"

section \<open>FAQ matcher\<close>

text \<open>
  Scores are quotients of two token counts. They are kept as exact reals: two distinct
  quotients of counts below \<open>2^26\<close> are distinct Numbers in the same order, and the
  Number \<open>0.7\<close> lies between \<open>7/10\<close> and every such quotient below it.
\<close>

fun faqPromptLoop ::
  "jsstring list \<Rightarrow> faq \<Rightarrow> jsstring list \<Rightarrow> faq option \<times> real \<Rightarrow> faq option \<times> real" where
  "faqPromptLoop qTokens f [] acc = acc"
| "faqPromptLoop qTokens f (prompt # rest) (best, bestScore) =
     (let pTokens = newSet (tokenize prompt) in
      if pTokens = [] then faqPromptLoop qTokens f rest (best, bestScore)
      else
        let score = real (overlapCount qTokens pTokens) / real (max (length qTokens) (length pTokens)) in
        if score > bestScore then faqPromptLoop qTokens f rest (Some f, score)
        else faqPromptLoop qTokens f rest (best, bestScore))"

fun faqLoop :: "jsstring list \<Rightarrow> faq list \<Rightarrow> faq option \<times> real \<Rightarrow> faq option \<times> real" where
  "faqLoop qTokens [] acc = acc"
| "faqLoop qTokens (f # fs) acc = faqLoop qTokens fs (faqPromptLoop qTokens f (prompts f) acc)"

definition findFaqAnswer :: "faq list \<Rightarrow> jsstring \<Rightarrow> faq option" where
  "findFaqAnswer faqs question =
     (let qTokens = newSet (tokenize question) in
      if qTokens = [] then None
      else
        (case faqLoop qTokens faqs (None, 0) of
           (best, bestScore) \<Rightarrow> if best \<noteq> None \<and> bestScore \<ge> 7 / 10 then best else None))"

text \<open>
  The FAQ score in the words of the specification, and the (entry, prompt) pairs in the
  order in which the two nested loops visit them.
\<close>

definition spec_faq_score :: "jsstring \<Rightarrow> jsstring \<Rightarrow> real" where
  "spec_faq_score query prompt =
     real (card (set (tokenize query) \<inter> set (tokenize prompt))) /
     real (max (card (set (tokenize query))) (card (set (tokenize prompt))))"

definition faqPairs :: "faq list \<Rightarrow> (faq \<times> jsstring) list" where
  "faqPairs faqs = concat (map (\<lambda>f. map (\<lambda>p. (f, p)) (prompts f)) faqs)"

text \<open>
  The two nested loops as one pass over scored pairs: a strictly greater score replaces the
  running best.
\<close>

fun bestLoop :: "('a \<times> real) list \<Rightarrow> 'a option \<times> real \<Rightarrow> 'a option \<times> real" where
  "bestLoop [] acc = acc"
| "bestLoop ((f, s) # xs) (best, bestScore) =
     (if s > bestScore then bestLoop xs (Some f, s) else bestLoop xs (best, bestScore))"

text \<open>What the running maximum holds after a pass that starts from \<open>(None, 0)\<close>.\<close>

definition bestOf :: "('a \<times> real) list \<Rightarrow> 'a option \<times> real \<Rightarrow> bool" where
  "bestOf xs r =
     (0 \<le> snd r \<and> (\<forall>x\<in>set xs. snd x \<le> snd r) \<and>
      (case fst r of
         None \<Rightarrow> snd r = 0
       | Some f \<Rightarrow> 0 < snd r \<and>
           (\<exists>i<length xs. xs ! i = (f, snd r) \<and> (\<forall>j<i. snd (xs ! j) < snd r))))"

section \<open>Retrieval engine\<close>

text \<open>
  \<open>.sort((a, b) => b.score - a.score)\<close>: \<open>Array.prototype.sort\<close> is stable, so items of
  equal score keep their order. \<open>sort_key\<close> is the stable insertion sort of the library.
\<close>

definition sortByScore :: "(doc \<times> real) list \<Rightarrow> (doc \<times> real) list" where
  "sortByScore items = sort_key (\<lambda>item. - snd item) items"

text \<open>
  The keyword scores of one query are quotients of token counts by the same count, kept as
  exact reals: distinct quotients are distinct Numbers in the same order.
\<close>

definition keywordScore :: "jsstring list \<Rightarrow> doc \<Rightarrow> real" where
  "keywordScore qTokens d =
     (let sourceText = title d @ js '' '' @ content d;
          dTokens = newSet (tokenize sourceText)
      in real (overlapCount qTokens dTokens) / real (max 1 (length qTokens)))"

definition retrieveByKeyword :: "doc list \<Rightarrow> jsstring \<Rightarrow> nat \<Rightarrow> (doc \<times> real) list" where
  "retrieveByKeyword docs question limit =
     (let qTokens = newSet (tokenize question) in
      if qTokens = [] then []
      else take limit (sortByScore
             (filter (\<lambda>item. snd item > 0) (map (\<lambda>d. (d, keywordScore qTokens d)) docs))))"


text \<open>
  The loop of \<open>cosineSimilarity\<close>. Every arithmetic operation of the source yields a
  Number, that is the exact result rounded; \<open>r\<close> is that rounding. With \<open>r\<close> the identity
  the arithmetic is exact. Vectors hold finite numbers: NaN and the infinities are not
  modelled.
\<close>

fun cosineLoop :: "(real \<Rightarrow> real) \<Rightarrow> real list \<Rightarrow> real list \<Rightarrow> real \<times> real \<times> real \<Rightarrow> real \<times> real \<times> real" where
  "cosineLoop r (x # xs) (y # ys) (dot, normA, normB) =
     cosineLoop r xs ys (r (dot + r (x * y)), r (normA + r (x * x)), r (normB + r (y * y)))"
| "cosineLoop r [] ys acc = acc"
| "cosineLoop r xs [] acc = acc"

definition cosineSimilarity :: "(real \<Rightarrow> real) \<Rightarrow> real list \<Rightarrow> real list \<Rightarrow> real" where
  "cosineSimilarity r a b =
     (if length a \<noteq> length b \<or> length a = 0 then - 1
      else
        (case cosineLoop r a b (0, 0, 0) of
           (dot, normA, normB) \<Rightarrow>
             if normA = 0 \<or> normB = 0 then - 1
             else r (dot / r (r (sqrt normA) * r (sqrt normB)))))"

text \<open>
  The two norms of the loop depend on one vector each: the running sum of rounded squares.
\<close>

definition normLoop :: "(real \<Rightarrow> real) \<Rightarrow> real list \<Rightarrow> real \<Rightarrow> real" where
  "normLoop r a n = fold (\<lambda>x acc. r (acc + r (x * x))) a n"

text \<open>
  A rounding with relative error at most \<open>u\<close>. The identity is the rounding of exact
  arithmetic (\<open>u = 0\<close>).
\<close>

definition relError :: "real \<Rightarrow> (real \<Rightarrow> real) \<Rightarrow> bool" where
  "relError u r = (\<forall>x. \<bar>r x - x\<bar> \<le> u * \<bar>x\<bar>)"

text \<open>
  The rounding of IEEE 754 binary64, the Number type: to the nearest value with a
  significand of 53 bits, ties to the even significand. The exponent is unbounded here, so
  overflow to infinity and underflow to subnormals or zero are not modelled.
\<close>

definition roundTiesToEven :: "real \<Rightarrow> int" where
  "roundTiesToEven x =
     (let f = \<lfloor>x\<rfloor> in
      if x - of_int f < 1 / 2 then f
      else if 1 / 2 < x - of_int f then f + 1
      else if even f then f else f + 1)"

definition binary64 :: "real \<Rightarrow> real" where
  "binary64 x =
     (if x = 0 then 0
      else
        let e = \<lfloor>log 2 \<bar>x\<bar>\<rfloor> - 52
        in of_int (roundTiesToEven (x / 2 powi e)) * 2 powi e)"

text \<open>
  The vector pass of \<open>retrieveContext\<close>. The Map \<open>ragEmbeddingsById\<close> is the list of
  its entries in the order in which \<open>loadChatData\<close> set them; it is non-empty exactly
  when its \<open>size\<close> is not zero.
\<close>

definition vectorScored :: "(real \<Rightarrow> real) \<Rightarrow> doc list \<Rightarrow> (jsstring \<times> real list) list \<Rightarrow> real list \<Rightarrow> (doc \<times> real) list" where
  "vectorScored r docs embeddings queryEmbedding =
     concat (map (\<lambda>d.
       (case mapGet embeddings (doc_id d) of
          None \<Rightarrow> []
        | Some vector \<Rightarrow>
            (let score = cosineSimilarity r queryEmbedding vector in
             if score > 0 then [(d, score)] else []))) docs)"

definition retrieveContext :: "config \<Rightarrow> world \<Rightarrow> server \<Rightarrow> jsstring \<Rightarrow> nat \<Rightarrow> (doc \<times> real) list" where
  "retrieveContext cfg w st question limit =
     (if ragDocuments st = [] then []
      else
        (case (if OPENAI_API_KEY cfg \<noteq> [] then ragEmbeddingsById st else None) of
           None \<Rightarrow> retrieveByKeyword (ragDocuments st) question limit
         | Some embeddings \<Rightarrow>
             if embeddings = [] then retrieveByKeyword (ragDocuments st) question limit
             else
               (case embedding_api w question of
                  Inl err \<Rightarrow> retrieveByKeyword (ragDocuments st) question limit
                | Inr queryEmbedding \<Rightarrow>
                    (let scored = sortByScore
                           (vectorScored (rnd w) (ragDocuments st) embeddings queryEmbedding)
                     in if scored \<noteq> [] then take limit scored
                        else retrieveByKeyword (ragDocuments st) question limit))))"

section \<open>Chat endpoint\<close>

text \<open>Sources unique by URL, the first document of each URL giving the title.\<close>

definition buildSourceList :: "(doc \<times> real) list \<Rightarrow> source list" where
  "buildSourceList items =
     fold (\<lambda>item acc.
        if url (fst item) \<in> src_url ` set acc then acc
        else acc @ [\<lparr>src_title = title (fst item), src_url = url (fst item)\<rparr>]) items []"

definition generateChatAnswer :: "world \<Rightarrow> jsstring \<Rightarrow> (doc \<times> real) list \<Rightarrow> string + jsstring" where
  "generateChatAnswer w question contextItems =
     (case completion_api w question contextItems of
        Inl err \<Rightarrow> Inl err
      | Inr message \<Rightarrow>
          Inr (case message of
                 None \<Rightarrow> js ''I could not generate an answer right now.''
               | Some text \<Rightarrow>
                   if trim text = [] then js ''I could not generate an answer right now.''
                   else trim text))"

text \<open>
  A response is \<open>res.status(200).json({answer, sources, cached})\<close> or
  \<open>res.status(code).json({error})\<close>. \<open>ReplyNoAnswer\<close> is the first with \<open>answer\<close>
  undefined, a property that the JSON body then lacks.
\<close>

datatype response =
  Reply jsstring "source list" bool
| ReplyNoAnswer "source list" bool
| Failure nat string

definition refusalAnswer :: jsstring where
  "refusalAnswer = js ''I can share general educational information, but I cannot provide diagnosis, prescriptions, or dosage advice. Please consult a licensed clinician for personal medical guidance.''"

definition noDataAnswer :: jsstring where
  "noDataAnswer = js ''I do not have enough trusted information in the current knowledge base to answer that. Please contact a licensed clinician or use our trusted resource links.''"

definition lengthError :: response where
  "lengthError = Failure 400 ''Please send a question between 4 and 800 characters.''"

definition configurationError :: response where
  "configurationError = Failure 503 ''Chatbot is not configured yet (missing OPENAI_API_KEY).''"

text \<open>
  The handler of \<open>POST /api/chat\<close>, after the rate limiter. \<open>body\<close> is
  \<open>String(req.body?.question || '')\<close>. The result is the response and the server state
  after the request. A value that the cache read inherited from \<open>Object.prototype\<close> has
  neither \<open>answer\<close> nor \<open>sources\<close>: the reply is
  \<open>{answer: undefined, sources: undefined || [], cached: true}\<close>.
\<close>

definition chat :: "config \<Rightarrow> world \<Rightarrow> server \<Rightarrow> jsstring \<Rightarrow> response \<times> server" where
  "chat cfg w st body =
     (if \<not> CHATBOT_ENABLED cfg then (Failure 503 ''Chatbot is currently disabled.'', st)
      else
        let question = trim body in
        if length question < 4 \<or> length question > 800 then (lengthError, st)
        else if isBlockedMedicalQuestion question then (Reply refusalAnswer [] False, st)
        else
          (case findFaqAnswer (ragFaqs st) question of
             Some faqHit \<Rightarrow>
               (Reply (faq_answer faqHit @ [10, 10] @
                        js ''This is educational information, not medical advice.'')
                  (faq_sources faqHit) False, st)
           | None \<Rightarrow>
               let cacheKey = normalizeText question in
               (case getCachedAnswer cfg w st cacheKey of
                  (Some (Entry cached), st1) \<Rightarrow> (Reply (answer cached) (sources cached) True, st1)
                | (Some Inherited, st1) \<Rightarrow> (ReplyNoAnswer [] True, st1)
                | (None, st1) \<Rightarrow>
                    if OPENAI_API_KEY cfg = [] then (configurationError, st1)
                    else
                      let contextItems = retrieveContext cfg w st1 question (CHATBOT_CONTEXT_CHUNKS cfg) in
                      if contextItems = []
                      then (Reply noDataAnswer [] False, setCachedAnswer w st1 cacheKey noDataAnswer [])
                      else
                        (case generateChatAnswer w question contextItems of
                           Inl err \<Rightarrow> (Failure 500 ''Chat assistant is temporarily unavailable.'', st1)
                         | Inr ans \<Rightarrow>
                             let srcs = buildSourceList contextItems;
                                 finalAnswer = ans @ [10, 10] @
                                   js ''This is educational information and not medical advice.''
                             in (Reply finalAnswer srcs False,
                                 setCachedAnswer w st1 cacheKey finalAnswer srcs)))))"

section \<open>Chunker\<close>

text \<open>
  \<open>maxChars\<close> and \<open>overlapChars\<close> are the integers that \<open>parseInt\<close> yields; a setting
  that does not parse (NaN) is not modelled.
\<close>

text \<open>\<open>String.prototype.slice(start, end)\<close> on integers: a negative index counts from the end.\<close>

definition jsSlice :: "jsstring \<Rightarrow> int \<Rightarrow> int \<Rightarrow> jsstring" where
  "jsSlice s start end =
     (let len = int (length s);
          from = (if start < 0 then max (len + start) 0 else min start len);
          to = (if end < 0 then max (len + end) 0 else min end len)
      in take (nat (to - from)) (drop (nat from) s))"

definition normalizeWhitespace :: "jsstring \<Rightarrow> jsstring" where
  "normalizeWhitespace text = trim (collapseWhitespace text)"

text \<open>\<open>text.split(/\n{2,}/)\<close>: the pieces between the maximal runs of two or more line feeds.\<close>

function splitBlankLines :: "jsstring \<Rightarrow> jsstring \<Rightarrow> jsstring list" where
  "splitBlankLines cur [] = [cur]"
| "splitBlankLines cur (c # cs) =
     (if c = 10 \<and> (case cs of [] \<Rightarrow> False | d # _ \<Rightarrow> d = 10)
      then cur # splitBlankLines [] (dropWhile (\<lambda>x. x = 10) cs)
      else splitBlankLines (cur @ [c]) cs)"
  by pat_completeness auto
termination
  by (relation "measure (\<lambda>(cur, s). length s)") (auto simp: le_imp_less_Suc length_dropWhile_le)

text \<open>\<open>tail.indexOf(' ')\<close>, \<open>None\<close> for \<open>-1\<close>.\<close>

fun indexOf :: "jsstring \<Rightarrow> nat \<Rightarrow> nat option" where
  "indexOf [] x = None"
| "indexOf (c # cs) x = (if c = x then Some 0 else map_option Suc (indexOf cs x))"

definition getTailAtWordBoundary :: "jsstring \<Rightarrow> int \<Rightarrow> jsstring" where
  "getTailAtWordBoundary text maxChars =
     (if int (length text) \<le> maxChars then text
      else
        let start = int (length text) - maxChars;
            tail = jsSlice text start (int (length text))
        in (case indexOf tail 32 of
              None \<Rightarrow> tail
            | Some firstSpace \<Rightarrow> jsSlice tail (int firstSpace + 1) (int (length tail))))"

text \<open>
  The \<open>while\<close> loop that slices an oversized paragraph. It does not advance when
  \<open>overlapChars\<close> is not below \<open>maxChars\<close>, so it is a partial function: \<open>None\<close> is the
  run that never returns.
\<close>

partial_function (option) sliceLoop ::
  "jsstring \<Rightarrow> int \<Rightarrow> int \<Rightarrow> int \<Rightarrow> jsstring list \<Rightarrow> jsstring list option" where
  "sliceLoop paragraph maxChars overlapChars start chunks =
     (if start < int (length paragraph)
      then
        (let end = min (start + maxChars) (int (length paragraph));
             segment = trim (jsSlice paragraph start end);
             chunks1 = (if segment \<noteq> [] then chunks @ [segment] else chunks)
         in if end \<ge> int (length paragraph) then Some chunks1
            else sliceLoop paragraph maxChars overlapChars (max 0 (end - overlapChars)) chunks1)
      else Some chunks)"

text \<open>The \<open>for\<close> loop over the paragraphs: the chunks pushed so far and the running buffer.\<close>

fun chunkLoop ::
  "int \<Rightarrow> int \<Rightarrow> jsstring list \<Rightarrow> jsstring list \<Rightarrow> jsstring \<Rightarrow> (jsstring list \<times> jsstring) option" where
  "chunkLoop maxChars overlapChars [] chunks current = Some (chunks, current)"
| "chunkLoop maxChars overlapChars (paragraph # rest) chunks current =
     (let candidate = (if current \<noteq> [] then current @ [10, 10] @ paragraph else paragraph) in
      if int (length candidate) \<le> maxChars
      then chunkLoop maxChars overlapChars rest chunks candidate
      else
        let chunks1 = (if current \<noteq> [] then chunks @ [current] else chunks) in
        if int (length paragraph) > maxChars
        then
          (case sliceLoop paragraph maxChars overlapChars 0 chunks1 of
             None \<Rightarrow> None
           | Some chunks2 \<Rightarrow> chunkLoop maxChars overlapChars rest chunks2 [])
        else
          let overlap = (if chunks1 \<noteq> [] then getTailAtWordBoundary (last chunks1) overlapChars else []);
              current1 = (if overlap \<noteq> [] then overlap @ [10, 10] @ paragraph else paragraph)
          in chunkLoop maxChars overlapChars rest chunks1 current1)"

definition chunkText :: "jsstring \<Rightarrow> int \<Rightarrow> int \<Rightarrow> jsstring list option" where
  "chunkText text maxChars overlapChars =
     (let paragraphs = filter (\<lambda>p. p \<noteq> []) (map normalizeWhitespace (splitBlankLines [] text)) in
      case chunkLoop maxChars overlapChars paragraphs [] [] of
        None \<Rightarrow> None
      | Some (chunks, current) \<Rightarrow>
          Some (filter (\<lambda>c. c \<noteq> [])
                  (map trim (if current \<noteq> [] then chunks @ [current] else chunks))))"

section \<open>Embedding builder\<close>

record embedding_item =
  item_id :: jsstring
  hash :: jsstring
  embedding :: "real list"

record pending_doc =
  pending_id :: jsstring
  inputText :: jsstring
  pending_hash :: jsstring

text \<open>A JSON file: missing, present but rejected by \<open>JSON.parse\<close>, or parsed.\<close>

datatype 'a json_file = Absent | Unparsable | Parsed 'a

text \<open>
  \<open>rag/documents.json\<close> and \<open>rag/embeddings.json\<close>; the latter holds \<open>{model, items}\<close>.
\<close>

record build_fs =
  docsFile :: "doc list json_file"
  outFile :: "(jsstring \<times> embedding_item list) json_file"

text \<open>
  The environment of one run of the builder: the API key, the model id, the parsed batch
  size, SHA-256 as a function, the embeddings endpoint (called with the offset of the batch
  and its inputs; \<open>Inl\<close> when the call throws, otherwise the \<open>embedding\<close> field of each
  returned item, \<open>None\<close> when it is not an array), and whether the final write succeeds.
\<close>

record build_env =
  build_api_key :: jsstring
  MODEL :: jsstring
  batch_size_env :: int
  contentHash :: "jsstring \<Rightarrow> jsstring"
  getEmbeddings :: "nat \<Rightarrow> jsstring list \<Rightarrow> string + real list option list"
  out_write_ok :: bool

definition BATCH_SIZE :: "build_env \<Rightarrow> nat" where
  "BATCH_SIZE env = nat (max 1 (batch_size_env env))"

text \<open>The first loop of \<open>main\<close>: documents whose stored hash is current, and the pending ones.\<close>

fun splitDocs ::
  "build_env \<Rightarrow> (jsstring \<times> embedding_item) list \<Rightarrow> doc list \<Rightarrow>
   pending_doc list \<Rightarrow> embedding_item list \<Rightarrow> pending_doc list \<times> embedding_item list" where
  "splitDocs env existingMap [] pendingDocs items = (pendingDocs, items)"
| "splitDocs env existingMap (d # ds) pendingDocs items =
     (let text = title d @ [10] @ content d;
          h = contentHash env text
      in case mapGet existingMap (doc_id d) of
           None \<Rightarrow>
             splitDocs env existingMap ds
               (pendingDocs @ [\<lparr>pending_id = doc_id d, inputText = text, pending_hash = h\<rparr>]) items
         | Some cached \<Rightarrow>
             if hash cached = h
             then splitDocs env existingMap ds pendingDocs
                    (items @ [\<lparr>item_id = doc_id d, hash = h, embedding = embedding cached\<rparr>])
             else splitDocs env existingMap ds
                    (pendingDocs @ [\<lparr>pending_id = doc_id d, inputText = text, pending_hash = h\<rparr>]) items)"

text \<open>The inner loop over one batch: the first missing embedding throws.\<close>

fun pushBatch ::
  "pending_doc list \<Rightarrow> real list option list \<Rightarrow> embedding_item list \<Rightarrow> string + embedding_item list" where
  "pushBatch [] responseItems items = Inr items"
| "pushBatch (d # ds) [] items = Inl ''Failed to get embedding for doc''"
| "pushBatch (d # ds) (None # rs) items = Inl ''Failed to get embedding for doc''"
| "pushBatch (d # ds) (Some e # rs) items =
     pushBatch ds rs (items @ [\<lparr>item_id = pending_id d, hash = pending_hash d, embedding = e\<rparr>])"

function embedBatches ::
  "build_env \<Rightarrow> pending_doc list \<Rightarrow> nat \<Rightarrow> embedding_item list \<Rightarrow> string + embedding_item list" where
  "embedBatches env pendingDocs i items =
     (if i < length pendingDocs
      then
        (let batch = take (BATCH_SIZE env) (drop i pendingDocs) in
         case getEmbeddings env i (map inputText batch) of
           Inl err \<Rightarrow> Inl err
         | Inr responseItems \<Rightarrow>
             if length responseItems \<noteq> length batch
             then Inl ''Embedding API returned unexpected batch response shape.''
             else
               (case pushBatch batch responseItems items of
                  Inl err \<Rightarrow> Inl err
                | Inr items1 \<Rightarrow> embedBatches env pendingDocs (i + BATCH_SIZE env) items1))
      else Inr items)"
  by pat_completeness auto
termination
  by (relation "measure (\<lambda>(env, pendingDocs, i, items). length pendingDocs - i)")
    (auto simp: BATCH_SIZE_def)

declare embedBatches.simps [simp del]

definition orderedItems :: "doc list \<Rightarrow> embedding_item list \<Rightarrow> embedding_item list" where
  "orderedItems docs items =
     List.map_filter (\<lambda>d. mapGet (map (\<lambda>item. (item_id item, item)) items) (doc_id d)) docs"

text \<open>
  The usable items of the existing \<open>embeddings.json\<close> (none when the file is missing),
  as the entries of \<open>existingMap\<close>.
\<close>

definition existingMap :: "(jsstring \<times> embedding_item list) json_file \<Rightarrow> (jsstring \<times> embedding_item) list" where
  "existingMap f =
     (case f of
        Parsed (m, its) \<Rightarrow> map (\<lambda>item. (item_id item, item)) its
      | _ \<Rightarrow> [])"

text \<open>
  \<open>main\<close> of the embedding builder: the outcome (\<open>Inl\<close> the message of the error that
  ends the process with exit code 1) and the files after the run.
\<close>

definition main :: "build_env \<Rightarrow> build_fs \<Rightarrow> (string + unit) \<times> build_fs" where
  "main env fs =
     (if build_api_key env = [] then (Inl ''OPENAI_API_KEY is required.'', fs)
      else
        (case docsFile fs of
           Absent \<Rightarrow> (Inl ''Missing file: rag/documents.json'', fs)
         | Unparsable \<Rightarrow> (Inl ''SyntaxError'', fs)
         | Parsed docs \<Rightarrow>
             if docs = [] then (Inl ''rag/documents.json must contain at least one document.'', fs)
             else if outFile fs = Unparsable then (Inl ''SyntaxError'', fs)
             else
               (case splitDocs env (existingMap (outFile fs)) docs [] [] of
                  (pendingDocs, items) \<Rightarrow>
                    (case embedBatches env pendingDocs 0 items of
                       Inl err \<Rightarrow> (Inl err, fs)
                     | Inr items1 \<Rightarrow>
                         if out_write_ok env
                         then (Inr (), fs\<lparr>outFile := Parsed (MODEL env, orderedItems docs items1)\<rparr>)
                         else (Inl ''EACCES'', fs)))))"

text \<open>
  The documents a run has to embed, the batch that starts at offset \<open>i\<close>, and a response
  that the run must reject: its item count differs from the batch, or an item has no
  embedding.
\<close>

definition pendingOf :: "build_env \<Rightarrow> build_fs \<Rightarrow> pending_doc list" where
  "pendingOf env fs =
     (case docsFile fs of
        Parsed docs \<Rightarrow> fst (splitDocs env (existingMap (outFile fs)) docs [] [])
      | _ \<Rightarrow> [])"

definition batchAt :: "build_env \<Rightarrow> pending_doc list \<Rightarrow> nat \<Rightarrow> pending_doc list" where
  "batchAt env pendingDocs i = take (BATCH_SIZE env) (drop i pendingDocs)"

definition badResponse :: "pending_doc list \<Rightarrow> string + real list option list \<Rightarrow> bool" where
  "badResponse batch response =
     (case response of
        Inl err \<Rightarrow> False
      | Inr responseItems \<Rightarrow> length responseItems \<noteq> length batch \<or> None \<in> set responseItems)"

section \<open>Example data\<close>

definition exampleConfig :: config where
  "exampleConfig = \<lparr>CHATBOT_ENABLED = True, OPENAI_API_KEY = [], ttl_hours_env = 1, context_chunks_env = 2\<rparr>"

definition exampleItem :: cache_item where
  "exampleItem = \<lparr>answer = js ''PCOS is common.'', sources = [], timestamp = 1000\<rparr>"

definition exampleServer :: server where
  "exampleServer = \<lparr>ragDocuments = [], ragFaqs = [], ragEmbeddingsById = None,
     chatCache = [js ''what is pcos'' \<mapsto> exampleItem],
     cacheFile = [js ''what is pcos'' \<mapsto> exampleItem]\<rparr>"

definition exampleWorld :: "int \<Rightarrow> world" where
  "exampleWorld t = \<lparr>now_read = t, now_write = t, write_ok = True,
     embedding_api = (\<lambda>q. Inl ''unreachable''), completion_api = (\<lambda>q items. Inl ''unreachable''),
     rnd = (\<lambda>x. x)\<rparr>"

definition overviewDoc :: doc where
  "overviewDoc = \<lparr>doc_id = js ''overview-1'', title = js ''PCOS overview'',
     url = js ''https://example.org/pcos'', content = js ''PCOS is a hormonal condition.''\<rparr>"


definition whatIsFaq :: faq where
  "whatIsFaq = \<lparr>faq_id = js ''what-is-pcos'', prompts = [js ''What is PCOS?''],
     faq_answer = js ''PCOS is a common hormonal condition.'', faq_sources = []\<rparr>"


definition longDoseQuestion :: jsstring where
  "longDoseQuestion = replicate 800 97 @ js '' dose''"

definition keyedConfig :: config where
  "keyedConfig = \<lparr>CHATBOT_ENABLED = True, OPENAI_API_KEY = js ''sk-test'', ttl_hours_env = 168, context_chunks_env = 2\<rparr>"

definition vectorServer :: server where
  "vectorServer = \<lparr>ragDocuments = [overviewDoc], ragFaqs = [],
     ragEmbeddingsById = Some [(js ''overview-1'', [1, 0])],
     chatCache = Map.empty, cacheFile = Map.empty\<rparr>"

definition vectorWorld :: world where
  "vectorWorld = \<lparr>now_read = 0, now_write = 0, write_ok = True,
     embedding_api = (\<lambda>q. Inr [0, 1]), completion_api = (\<lambda>q items. Inr None),
     rnd = (\<lambda>x. x)\<rparr>"

definition lifestyleDoc :: doc where
  "lifestyleDoc = \<lparr>doc_id = js ''lifestyle-1'', title = js ''Lifestyle'',
     url = js ''https://example.org/lifestyle'', content = js ''What is PCOS? Exercise helps.''\<rparr>"

definition risksDoc :: doc where
  "risksDoc = \<lparr>doc_id = js ''risks-1'', title = js ''Risks'',
     url = js ''https://example.org/risks'', content = js ''Metabolic risks of PCOS.''\<rparr>"

definition symptomsFaq :: faq where
  "symptomsFaq = \<lparr>faq_id = js ''symptoms'', prompts = [js ''What are the common signs and symptoms?''],
     faq_answer = js ''Common signs include irregular periods.'', faq_sources = []\<rparr>"

definition symptomsQuestion :: jsstring where
  "symptomsQuestion = js ''What are the common early signs and symptoms with PCOS?''"

definition exampleFiles :: build_fs where
  "exampleFiles = \<lparr>docsFile = Parsed [overviewDoc, lifestyleDoc, risksDoc], outFile = Absent\<rparr>"

definition shortEnv :: build_env where
  "shortEnv = \<lparr>build_api_key = js ''sk-test'', MODEL = js ''text-embedding-3-small'',
     batch_size_env = 2, contentHash = (\<lambda>text. text),
     getEmbeddings = (\<lambda>i inputs. if i = 0 then Inr [Some [1, 0], Some [0, 1]] else Inr []),
     out_write_ok = True\<rparr>"

definition completeEnv :: build_env where
  "completeEnv = \<lparr>build_api_key = js ''sk-test'', MODEL = js ''text-embedding-3-small'',
     batch_size_env = 2, contentHash = (\<lambda>text. text),
     getEmbeddings = (\<lambda>i inputs. Inr (map (\<lambda>text. Some [1, 0]) inputs)),
     out_write_ok = True\<rparr>"

section \<open>Evaluation rules\<close>

lemma js_simps:
  "js [] = []" "js (c # cs) = of_char c # js cs"
  by (simp_all add: js_def)

lemmas guard_eval =
  isBlockedMedicalQuestion_def blockedPattern1_def blockedPattern2_def howMuchAt_def wordAt_def
  dosageWords_def amountWords_def wordBoundary_def isWordChar_def isLineTerminator_def ciUnit_def
  js_simps

lemma length_js [simp]: "length (js s) = length s"
  by (simp add: js_def)

lemmas text_eval =
  normalizeText_def toLowerCase_def lowerUnit_def replaceNonAlnum_def isLowerAlnum_def
  isWhiteSpace_def trim_def tokenize_def newSet_def overlapCount_def js_simps

lemma blocked_dosage_example:
  "isBlockedMedicalQuestion (js ''What dosage of metformin should I take?'')"
  by (simp add: guard_eval)

lemma blocked_howmuch_example:
  "blockedPattern2 (js ''How much of it, in Mg?'')"
  by (simp add: guard_eval)

lemma not_blocked_example:
  "\<not> isBlockedMedicalQuestion (js ''dosed omg what is pcos'')"
  by (simp add: guard_eval)

section \<open>Answer cache: expiry\<close>

lemma example_ttl: "ttlMs exampleConfig = 3600000"
  by (simp add: ttlMs_def CHATBOT_CACHE_TTL_HOURS_def exampleConfig_def)

lemma example_lookup: "chatCache exampleServer (js ''what is pcos'') = Some exampleItem"
  by (simp add: exampleServer_def)

text \<open>
  C2, as the code has it. The read returns the stored entry exactly when
  \<open>now - timestamp \<le> TTL\<close> (the source evicts on \<open>now - timestamp > TTL\<close>), and then the
  state is untouched. Otherwise the read reports the key as absent, the entry is deleted
  from the in-memory cache, and the cache file is rewritten with the remaining entries
  whenever the write succeeds (a failed write is logged and ignored).
\<close>

theorem cache_read_ttl:
  assumes "chatCache st key = Some item"
  shows "(fst (getCachedAnswer cfg w st key) = Some (Entry item)) = (now_read w - timestamp item \<le> ttlMs cfg) \<and>
     (now_read w - timestamp item \<le> ttlMs cfg \<longrightarrow> getCachedAnswer cfg w st key = (Some (Entry item), st)) \<and>
     (now_read w - timestamp item > ttlMs cfg \<longrightarrow>
        fst (getCachedAnswer cfg w st key) = None \<and>
        chatCache (snd (getCachedAnswer cfg w st key)) = (chatCache st)(key := None) \<and>
        (write_ok w \<longrightarrow> cacheFile (snd (getCachedAnswer cfg w st key)) = (chatCache st)(key := None)))"
  using assms by (auto simp: getCachedAnswer_def cacheLookup_def saveChatCache_def)

text \<open>
  An entry written at \<open>T0 = 1000\<close> with a TTL of one hour is served at \<open>T0 + TTL - 1\<close> and
  gone, also from the file, at \<open>T0 + TTL + 1\<close>.
\<close>

theorem cache_read_ttl_witness:
  "getCachedAnswer exampleConfig (exampleWorld (1000 + 3600000 - 1)) exampleServer (js ''what is pcos'')
     = (Some (Entry exampleItem), exampleServer) \<and>
   fst (getCachedAnswer exampleConfig (exampleWorld (1000 + 3600000 + 1)) exampleServer (js ''what is pcos'')) = None \<and>
   cacheFile (snd (getCachedAnswer exampleConfig (exampleWorld (1000 + 3600000 + 1)) exampleServer (js ''what is pcos'')))
     (js ''what is pcos'') = None"
  using cache_read_ttl [OF example_lookup, of exampleConfig "exampleWorld (1000 + 3600000 - 1)"]
    cache_read_ttl [OF example_lookup, of exampleConfig "exampleWorld (1000 + 3600000 + 1)"]
  by (simp add: example_ttl exampleWorld_def exampleItem_def)

text \<open>
  At \<open>now - timestamp = TTL\<close> exactly the entry is still served, although
  \<open>now - timestamp < TTL\<close> is false.
\<close>

theorem cache_read_ttl_counterexample:
  "\<not> ((fst (getCachedAnswer exampleConfig (exampleWorld (1000 + 3600000)) exampleServer (js ''what is pcos''))
        = Some (Entry exampleItem)) =
      (now_read (exampleWorld (1000 + 3600000)) - timestamp exampleItem < ttlMs exampleConfig))"
  by (simp add: getCachedAnswer_def cacheLookup_def example_lookup example_ttl exampleWorld_def
      exampleItem_def)

section \<open>Guardrail filter: white space around the question\<close>

text \<open>
  The handler tests the trimmed question. White space at either end of a string neither
  adds nor removes a match of the two patterns: every match starts and ends with a letter.
\<close>

lemma whitespace_nonword: "isWhiteSpace c \<Longrightarrow> \<not> isWordChar c"
  by (auto simp: isWhiteSpace_def isWordChar_def)

lemma ciUnit_letter: "97 \<le> p \<Longrightarrow> p \<le> 122 \<Longrightarrow> ciUnit c p \<Longrightarrow> isWordChar c"
  by (auto simp: ciUnit_def isWordChar_def)

lemma wordBoundary_suffix:
  "\<forall>c\<in>set R. \<not> isWordChar c \<Longrightarrow> wordBoundary prev (x @ R) = wordBoundary prev x"
  by (cases x; cases R) (auto simp: wordBoundary_def)

lemma literalAt_suffix:
  assumes "\<forall>c\<in>set R. \<not> isWordChar c"
  shows "letterEnded lit \<Longrightarrow>
         literalAt lit prev (x @ R) = map_option (\<lambda>(p, rest). (p, rest @ R)) (literalAt lit prev x)"
  using assms
proof (induction lit arbitrary: prev x R)
  case Nil
  then show ?case by (simp add: letterEnded_def)
next
  case (Cons p ps)
  show ?case
  proof (cases x)
    case (Cons c x')
    show ?thesis
    proof (cases "ps = []")
      case True
      then show ?thesis by (simp add: Cons)
    next
      case False
      with Cons.prems(1) have "letterEnded ps"
        by (simp add: letterEnded_def)
      from Cons.IH [OF this Cons.prems(2), of "Some c" x'] show ?thesis
        by (simp add: Cons)
    qed
  next
    case Nil
    show ?thesis
    proof (cases R)
      case Nil
      with \<open>x = []\<close> show ?thesis by simp
    next
      case (Cons c R')
      show ?thesis
      proof (cases "ps = []")
        case True
        with Cons.prems(1) have "97 \<le> p" "p \<le> 122"
          by (simp_all add: letterEnded_def)
        with ciUnit_letter [of p c] Cons.prems(2) Cons have "\<not> ciUnit c p"
          by auto
        with Cons \<open>x = []\<close> show ?thesis by simp
      next
        case False
        with Cons.prems(1) have l: "letterEnded ps"
          by (simp add: letterEnded_def)
        have "\<forall>c\<in>set R'. \<not> isWordChar c"
          using Cons.prems(2) Cons by simp
        from Cons.IH [OF l this, of "Some c" "[]"] False have "literalAt ps (Some c) R' = None"
          by (cases ps) simp_all
        with Cons \<open>x = []\<close> show ?thesis by simp
      qed
    qed
  qed
qed

lemma alternativeAt_suffix:
  assumes "\<forall>c\<in>set R. \<not> isWordChar c" "\<forall>lit\<in>set lits. letterEnded lit"
  shows "alternativeAt lits prev (x @ R) = alternativeAt lits prev x"
  using assms(2)
proof (induction lits)
  case Nil
  then show ?case by simp
next
  case (Cons lit lits)
  then have l: "letterEnded lit" by simp
  show ?case
    using Cons literalAt_suffix [OF assms(1) l, of prev x] wordBoundary_suffix [OF assms(1)]
    by (cases "literalAt lit prev x") auto
qed

lemma wordAt_suffix:
  assumes "\<forall>c\<in>set R. \<not> isWordChar c" "\<forall>lit\<in>set lits. letterEnded lit"
  shows "wordAt lits prev (x @ R) = wordAt lits prev x"
  by (simp add: wordAt_def wordBoundary_suffix [OF assms(1)] alternativeAt_suffix [OF assms])

lemma wordAt_dead: "nonWordBefore prev \<Longrightarrow> \<not> wordAt lits prev []"
  by (auto simp: wordAt_def wordBoundary_def nonWordBefore_def split: option.splits)

lemma anywhere_suffix:
  assumes suf: "\<And>R prev x. \<forall>c\<in>set R. \<not> isWordChar c \<Longrightarrow> P prev (x @ R) = P prev x"
    and dead: "\<And>prev. nonWordBefore prev \<Longrightarrow> \<not> P prev []"
    and R: "\<forall>c\<in>set R. \<not> isWordChar c"
  shows "anywhere P prev (x @ R) = anywhere P prev x"
proof (induction x arbitrary: prev)
  case Nil
  from R show ?case
  proof (induction R arbitrary: prev)
    case Nil
    then show ?case by simp
  next
    case (Cons c R)
    have "P prev (c # R) = P prev []"
      using suf [of "c # R" prev "[]"] Cons.prems by simp
    moreover have "anywhere P (Some c) ([] @ R) = anywhere P (Some c) []"
      using Cons by simp
    moreover have "\<not> P (Some c) []"
      using dead [of "Some c"] Cons.prems by (simp add: nonWordBefore_def)
    ultimately show ?case by simp
  qed
next
  case (Cons c x)
  have "P prev (c # x @ R) = P prev (c # x)"
    using suf [OF R, of prev "c # x"] by simp
  with Cons show ?case by simp
qed

lemma dotStarThen_suffix:
  assumes suf: "\<And>R prev x. \<forall>c\<in>set R. \<not> isWordChar c \<Longrightarrow> P prev (x @ R) = P prev x"
    and dead: "\<And>prev. nonWordBefore prev \<Longrightarrow> \<not> P prev []"
    and R: "\<forall>c\<in>set R. \<not> isWordChar c"
  shows "dotStarThen P prev (x @ R) = dotStarThen P prev x"
proof (induction x arbitrary: prev)
  case Nil
  from R show ?case
  proof (induction R arbitrary: prev)
    case Nil
    then show ?case by simp
  next
    case (Cons c R)
    have "P prev (c # R) = P prev []"
      using suf [of "c # R" prev "[]"] Cons.prems by simp
    moreover have "dotStarThen P (Some c) ([] @ R) = dotStarThen P (Some c) []"
      using Cons by simp
    moreover have "\<not> P (Some c) []"
      using dead [of "Some c"] Cons.prems by (simp add: nonWordBefore_def)
    ultimately show ?case by simp
  qed
next
  case (Cons c x)
  have "P prev (c # x @ R) = P prev (c # x)"
    using suf [OF R, of prev "c # x"] by simp
  with Cons show ?case by simp
qed


lemma letterEnded_lits:
  "\<forall>lit\<in>set dosageWords. letterEnded lit"
  "\<forall>lit\<in>set amountWords. letterEnded lit"
  "letterEnded (js ''how much'')"
  by (simp_all add: letterEnded_def dosageWords_def amountWords_def js_simps)

lemma howMuchAt_suffix:
  assumes "\<forall>c\<in>set R. \<not> isWordChar c"
  shows "howMuchAt prev (x @ R) = howMuchAt prev x"
proof (cases "literalAt (js ''how much'') prev x")
  case None
  then show ?thesis
    by (simp add: howMuchAt_def literalAt_suffix [OF assms letterEnded_lits(3)]
        wordBoundary_suffix [OF assms])
next
  case (Some r)
  obtain p rest where r: "r = (p, rest)" by (cases r)
  have "dotStarThen (wordAt amountWords) p (rest @ R) = dotStarThen (wordAt amountWords) p rest"
    by (rule dotStarThen_suffix [OF _ _ assms])
       (simp_all add: wordAt_suffix letterEnded_lits(2) wordAt_dead)
  with Some r show ?thesis
    by (simp add: howMuchAt_def literalAt_suffix [OF assms letterEnded_lits(3)]
        wordBoundary_suffix [OF assms])
qed

lemma howMuchAt_dead: "nonWordBefore prev \<Longrightarrow> \<not> howMuchAt prev []"
  by (auto simp: howMuchAt_def wordBoundary_def nonWordBefore_def split: option.splits)

lemma blocked_suffix:
  assumes "\<forall>c\<in>set R. \<not> isWordChar c"
  shows "isBlockedMedicalQuestion (x @ R) = isBlockedMedicalQuestion x"
proof -
  have "blockedPattern1 (x @ R) = blockedPattern1 x"
    unfolding blockedPattern1_def
    by (rule anywhere_suffix [OF _ _ assms])
       (simp_all add: wordAt_suffix letterEnded_lits(1) wordAt_dead)
  moreover have "blockedPattern2 (x @ R) = blockedPattern2 x"
    unfolding blockedPattern2_def
    by (rule anywhere_suffix [OF _ _ assms]) (simp_all add: howMuchAt_suffix howMuchAt_dead)
  ultimately show ?thesis
    by (simp add: isBlockedMedicalQuestion_def)
qed

lemma wordBoundary_before:
  "nonWordBefore prev \<Longrightarrow> wordBoundary prev y = wordBoundary None y"
  by (auto simp: wordBoundary_def nonWordBefore_def split: option.splits)

lemma wordBoundary_skip:
  "nonWordBefore prev \<Longrightarrow> \<not> isWordChar c \<Longrightarrow> \<not> wordBoundary prev (c # y)"
  by (auto simp: wordBoundary_def nonWordBefore_def split: option.splits)

lemma literalAt_before: "lit \<noteq> [] \<Longrightarrow> literalAt lit prev y = literalAt lit None y"
  by (cases lit; cases y) auto

lemma alternativeAt_before:
  "\<forall>lit\<in>set lits. letterEnded lit \<Longrightarrow> alternativeAt lits prev y = alternativeAt lits None y"
proof (induction lits)
  case Nil
  then show ?case by simp
next
  case (Cons lit lits)
  then have "lit \<noteq> []" by (simp add: letterEnded_def)
  from literalAt_before [OF this, of prev y] Cons show ?case
    by simp
qed

lemma wordAt_before:
  assumes "\<forall>lit\<in>set lits. letterEnded lit" "nonWordBefore prev"
  shows "wordAt lits prev y = wordAt lits None y"
  using alternativeAt_before [OF assms(1), of prev y] wordBoundary_before [OF assms(2), of y]
  by (simp add: wordAt_def)

lemma howMuchAt_before:
  assumes "nonWordBefore prev"
  shows "howMuchAt prev y = howMuchAt None y"
proof -
  have "literalAt (js ''how much'') prev y = literalAt (js ''how much'') None y"
    by (rule literalAt_before) (simp add: js_simps)
  then show ?thesis
    using wordBoundary_before [OF assms, of y] by (simp add: howMuchAt_def)
qed

lemma anywhere_prefix:
  assumes before: "\<And>prev y. nonWordBefore prev \<Longrightarrow> P prev y = P None y"
    and skip: "\<And>prev c y. nonWordBefore prev \<Longrightarrow> \<not> isWordChar c \<Longrightarrow> \<not> P prev (c # y)"
  shows "\<forall>c\<in>set L. \<not> isWordChar c \<Longrightarrow> nonWordBefore prev \<Longrightarrow>
         anywhere P prev (L @ y) = anywhere P None y"
proof (induction L arbitrary: prev)
  case Nil
  then show ?case
    using before [of prev] by (cases y) simp_all
next
  case (Cons c L)
  have "\<not> P prev (c # L @ y)"
    using skip [of prev c "L @ y"] Cons.prems by simp
  moreover have "nonWordBefore (Some c)"
    using Cons.prems by (simp add: nonWordBefore_def)
  ultimately show ?case
    using Cons.IH [of "Some c"] Cons.prems by simp
qed

lemma wordAt_skip: "nonWordBefore prev \<Longrightarrow> \<not> isWordChar c \<Longrightarrow> \<not> wordAt lits prev (c # y)"
  by (simp add: wordAt_def wordBoundary_skip)

lemma howMuchAt_skip: "nonWordBefore prev \<Longrightarrow> \<not> isWordChar c \<Longrightarrow> \<not> howMuchAt prev (c # y)"
  by (simp add: howMuchAt_def wordBoundary_skip)

lemma blocked_prefix:
  assumes "\<forall>c\<in>set L. \<not> isWordChar c"
  shows "isBlockedMedicalQuestion (L @ y) = isBlockedMedicalQuestion y"
proof -
  have n: "nonWordBefore None"
    by (simp add: nonWordBefore_def)
  have "blockedPattern1 (L @ y) = blockedPattern1 y"
    unfolding blockedPattern1_def
  proof (rule anywhere_prefix [where P = "wordAt dosageWords", OF _ _ assms n])
    show "\<And>prev y. nonWordBefore prev \<Longrightarrow> wordAt dosageWords prev y = wordAt dosageWords None y"
      by (rule wordAt_before [OF letterEnded_lits(1)])
    show "\<And>prev c y. nonWordBefore prev \<Longrightarrow> \<not> isWordChar c \<Longrightarrow> \<not> wordAt dosageWords prev (c # y)"
      by (rule wordAt_skip)
  qed
  moreover have "blockedPattern2 (L @ y) = blockedPattern2 y"
    unfolding blockedPattern2_def
  proof (rule anywhere_prefix [where P = howMuchAt, OF _ _ assms n])
    show "\<And>prev y. nonWordBefore prev \<Longrightarrow> howMuchAt prev y = howMuchAt None y"
      by (rule howMuchAt_before)
    show "\<And>prev c y. nonWordBefore prev \<Longrightarrow> \<not> isWordChar c \<Longrightarrow> \<not> howMuchAt prev (c # y)"
      by (rule howMuchAt_skip)
  qed
  ultimately show ?thesis
    by (simp add: isBlockedMedicalQuestion_def)
qed

lemma trim_decompose:
  "s = takeWhile isWhiteSpace s @ trim s @ rev (takeWhile isWhiteSpace (rev (dropWhile isWhiteSpace s)))"
proof -
  define u where "u = dropWhile isWhiteSpace s"
  have "rev u = takeWhile isWhiteSpace (rev u) @ dropWhile isWhiteSpace (rev u)"
    by simp
  then have "rev (rev u) = rev (takeWhile isWhiteSpace (rev u) @ dropWhile isWhiteSpace (rev u))"
    by simp
  then have "u = rev (dropWhile isWhiteSpace (rev u)) @ rev (takeWhile isWhiteSpace (rev u))"
    by (simp only: rev_rev_ident rev_append)
  then have "u = trim s @ rev (takeWhile isWhiteSpace (rev u))"
    by (simp add: trim_def u_def)
  moreover have "s = takeWhile isWhiteSpace s @ u"
    by (simp add: u_def)
  ultimately show ?thesis
    unfolding u_def by metis
qed

lemma blocked_trim: "isBlockedMedicalQuestion (trim s) = isBlockedMedicalQuestion s"
proof -
  define L where "L = takeWhile isWhiteSpace s"
  define R where "R = rev (takeWhile isWhiteSpace (rev (dropWhile isWhiteSpace s)))"
  have L: "\<forall>c\<in>set L. \<not> isWordChar c"
    unfolding L_def by (auto dest: set_takeWhileD whitespace_nonword)
  have R: "\<forall>c\<in>set R. \<not> isWordChar c"
    unfolding R_def by (auto dest: set_takeWhileD whitespace_nonword)
  have "s = L @ trim s @ R"
    unfolding L_def R_def by (rule trim_decompose)
  then have "isBlockedMedicalQuestion s = isBlockedMedicalQuestion (L @ trim s @ R)"
    by simp
  also have "\<dots> = isBlockedMedicalQuestion (trim s @ R)"
    by (rule blocked_prefix [OF L])
  also have "\<dots> = isBlockedMedicalQuestion (trim s)"
    by (rule blocked_suffix [OF R])
  finally show ?thesis
    by simp
qed

section \<open>Chat endpoint: the order of the gates\<close>

lemma chat_length:
  assumes "CHATBOT_ENABLED cfg" "length (trim body) < 4 \<or> 800 < length (trim body)"
  shows "chat cfg w st body = (lengthError, st)"
  using assms by (auto simp: chat_def Let_def)






lemma retrieveByKeyword_no_docs: "retrieveByKeyword [] question limit = []"
  by (simp add: retrieveByKeyword_def sortByScore_def Let_def)


lemma anywhere_append:
  "anywhere P (if xs = [] then prev else Some (last xs)) ys \<Longrightarrow> anywhere P prev (xs @ ys)"
proof (induction xs arbitrary: prev)
  case Nil
  then show ?case by simp
next
  case (Cons x xs)
  then have "anywhere P (Some x) (xs @ ys)"
    by (cases "xs = []") simp_all
  then show ?case by simp
qed

subsection \<open>Evaluated examples\<close>



lemma keyword_what: "retrieveByKeyword [overviewDoc] (js ''what is pcos'') 2 = [(overviewDoc, 1 / 2)]"
  by (simp add: retrieveByKeyword_def keywordScore_def sortByScore_def overviewDoc_def text_eval)




lemma trim_mg: "trim (js ''mg?'') = js ''mg?''"
  by (simp add: trim_def isWhiteSpace_def js_simps)

lemma blocked_mg: "isBlockedMedicalQuestion (js ''mg?'')"
  by (simp add: guard_eval)

lemma trim_dosage:
  "trim (js ''  What dosage of metformin should I take? '') = js ''What dosage of metformin should I take?''"
  by (simp add: trim_def isWhiteSpace_def js_simps)

lemma blocked_dosage_padded:
  "isBlockedMedicalQuestion (js ''  What dosage of metformin should I take? '')"
  by (simp add: guard_eval)

lemma trim_long: "trim longDoseQuestion = longDoseQuestion"
  by (simp add: longDoseQuestion_def trim_def isWhiteSpace_def js_simps)

lemma blocked_long: "isBlockedMedicalQuestion longDoseQuestion"
proof -
  have "blockedPattern1 longDoseQuestion"
    unfolding blockedPattern1_def longDoseQuestion_def
    by (rule anywhere_append) (simp add: guard_eval)
  then show ?thesis
    by (simp add: isBlockedMedicalQuestion_def)
qed

text \<open>
  C9. A question whose trimmed length is below 4 or above 800 is rejected with an error
  response and the state is untouched. With the chatbot enabled the response is the length
  error (status 400): the check runs before the guardrail filter, so the answer is never the
  fixed refusal, whether or not the question matches a guardrail pattern.
\<close>

theorem chat_length_gate:
  assumes "length (trim body) < 4 \<or> 800 < length (trim body)"
  shows "(\<exists>code message. chat cfg w st body = (Failure code message, st)) \<and>
         (CHATBOT_ENABLED cfg \<longrightarrow> chat cfg w st body = (lengthError, st)) \<and>
         fst (chat cfg w st body) \<noteq> Reply refusalAnswer [] False"
  using assms by (auto simp: chat_def Let_def lengthError_def)

text \<open>
  A question of 805 code units that ends in \<open>dose\<close> matches the first guardrail pattern and
  still receives the length error.
\<close>

theorem chat_length_gate_witness:
  "isBlockedMedicalQuestion longDoseQuestion \<and> length (trim longDoseQuestion) = 805 \<and>
   chat exampleConfig (exampleWorld 0) exampleServer longDoseQuestion = (lengthError, exampleServer) \<and>
   fst (chat exampleConfig (exampleWorld 0) exampleServer longDoseQuestion) \<noteq> Reply refusalAnswer [] False"
proof -
  have len: "length (trim longDoseQuestion) = 805"
    by (simp add: trim_long) (simp add: longDoseQuestion_def)
  then have range: "length (trim longDoseQuestion) < 4 \<or> 800 < length (trim longDoseQuestion)"
    by simp
  have en: "CHATBOT_ENABLED exampleConfig"
    by (simp add: exampleConfig_def)
  from chat_length_gate [OF range, of exampleConfig "exampleWorld 0" exampleServer] en len blocked_long
  show ?thesis
    by (simp add: lengthError_def)
qed

text \<open>
  C1, as the code has it. With the chatbot enabled, every question that matches a
  guardrail pattern and whose trimmed text has between 4 and 800 code units receives the
  fixed refusal with an empty source list, not marked as cached, and the server state after
  the request is the state before it, whatever the cache, the documents, the FAQ list and
  the embedding index hold: nothing of them is read.
\<close>

theorem guardrail_refusal:
  assumes "CHATBOT_ENABLED cfg" "4 \<le> length (trim body)" "length (trim body) \<le> 800"
    and "isBlockedMedicalQuestion body"
  shows "chat cfg w st body = (Reply refusalAnswer [] False, st)"
  using assms by (simp add: chat_def Let_def blocked_trim)

theorem guardrail_refusal_witness:
  "chat exampleConfig (exampleWorld 0) exampleServer (js ''  What dosage of metformin should I take? '')
     = (Reply refusalAnswer [] False, exampleServer)"
  by (rule guardrail_refusal)
     (simp_all add: trim_dosage blocked_dosage_padded exampleConfig_def)

text \<open>
  The question \<open>mg?\<close> matches the first guardrail pattern, yet it is shorter than 4 code
  units and receives the length error instead of the refusal.
\<close>

theorem guardrail_refusal_counterexample:
  "isBlockedMedicalQuestion (js ''mg?'') \<and>
   chat exampleConfig (exampleWorld 0) exampleServer (js ''mg?'') = (lengthError, exampleServer) \<and>
   lengthError \<noteq> Reply refusalAnswer [] False"
proof -
  have "chat exampleConfig (exampleWorld 0) exampleServer (js ''mg?'') = (lengthError, exampleServer)"
    by (rule chat_length) (simp_all add: trim_mg exampleConfig_def)
  then show ?thesis
    by (simp add: blocked_mg lengthError_def)
qed

section \<open>Token sets: size and overlap\<close>

lemma newSet_fold:
  "set (fold (\<lambda>x acc. if x \<in> set acc then acc else acc @ [x]) xs acc) = set acc \<union> set xs \<and>
   (distinct acc \<longrightarrow> distinct (fold (\<lambda>x acc. if x \<in> set acc then acc else acc @ [x]) xs acc))"
  by (induction xs arbitrary: acc) auto

lemma set_newSet [simp]: "set (newSet xs) = set xs"
  using newSet_fold [of xs "[]"] by (simp add: newSet_def)

lemma distinct_newSet [simp]: "distinct (newSet xs)"
  using newSet_fold [of xs "[]"] by (simp add: newSet_def)

lemma length_newSet: "length (newSet xs) = card (set xs)"
  using distinct_card [OF distinct_newSet, of xs] by simp

lemma newSet_empty [simp]: "newSet xs = [] \<longleftrightarrow> xs = []"
  by (metis set_newSet set_empty)

lemma overlap_fold:
  "fold (\<lambda>token overlap. if token \<in> S then overlap + 1 else overlap) qs n =
     n + length (filter (\<lambda>t. t \<in> S) qs)"
  by (induction qs arbitrary: n) auto

lemma overlapCount_card:
  "overlapCount (newSet qs) ps = card (set qs \<inter> set ps)"
proof -
  have "overlapCount (newSet qs) ps = length (filter (\<lambda>t. t \<in> set ps) (newSet qs))"
    by (simp add: overlapCount_def overlap_fold)
  also have "\<dots> = card (set (filter (\<lambda>t. t \<in> set ps) (newSet qs)))"
    using distinct_card [of "filter (\<lambda>t. t \<in> set ps) (newSet qs)"] by simp
  also have "set (filter (\<lambda>t. t \<in> set ps) (newSet qs)) = set qs \<inter> set ps"
    by auto
  finally show ?thesis .
qed

section \<open>Tokens: length and alphabet\<close>







section \<open>Chat endpoint: without an API key\<close>




subsection \<open>Evaluated examples\<close>










section \<open>Keyword retrieval: score, order and limit\<close>









section \<open>Retrieval: fallback from the vector pass\<close>

lemma vectorScored_empty:
  assumes "\<forall>d\<in>set docs. \<forall>v. mapGet embeddings (doc_id d) = Some v \<longrightarrow> cosineSimilarity r q v \<le> 0"
  shows "vectorScored r docs embeddings q = []"
  using assms by (induction docs) (auto simp: vectorScored_def Let_def split: option.splits)

text \<open>
  C10. With an API key, a non-empty embedding index and an embedding call that returns a
  vector, a vector pass in which no indexed document scores above 0 makes
  \<open>retrieveContext\<close> return what keyword retrieval returns for that query.
\<close>

theorem vector_fallback:
  assumes "OPENAI_API_KEY cfg \<noteq> []"
    and "ragEmbeddingsById st = Some embeddings" "embeddings \<noteq> []"
    and "embedding_api w question = Inr queryEmbedding"
    and "\<forall>d\<in>set (ragDocuments st). \<forall>v. mapGet embeddings (doc_id d) = Some v \<longrightarrow>
           cosineSimilarity (rnd w) queryEmbedding v \<le> 0"
  shows "retrieveContext cfg w st question limit =
           retrieveByKeyword (ragDocuments st) question limit"
  using assms vectorScored_empty [OF assms(5)]
  by (simp add: retrieveContext_def sortByScore_def retrieveByKeyword_no_docs)

lemma cosine_orthogonal: "cosineSimilarity (\<lambda>x. x) [0, 1] [1, 0] = 0"
  by (simp add: cosineSimilarity_def)

text \<open>
  The query vector is orthogonal to the only indexed vector: the similarity is 0 and the
  result is the keyword result.
\<close>

theorem vector_fallback_witness:
  "cosineSimilarity (rnd vectorWorld) [0, 1] [1, 0] = 0 \<and>
   retrieveContext keyedConfig vectorWorld vectorServer (js ''what is pcos'') 2 = [(overviewDoc, 1 / 2)]"
proof -
  have k: "OPENAI_API_KEY keyedConfig \<noteq> []"
    by (simp add: keyedConfig_def js_simps)
  have e: "ragEmbeddingsById vectorServer = Some [(js ''overview-1'', [1, 0])]"
    "[(js ''overview-1'', [1, 0::real])] \<noteq> []"
    by (simp_all add: vectorServer_def)
  have q: "embedding_api vectorWorld (js ''what is pcos'') = Inr [0, 1]"
    by (simp add: vectorWorld_def)
  have r: "rnd vectorWorld = (\<lambda>x. x)"
    by (simp add: vectorWorld_def)
  have s: "\<forall>d\<in>set (ragDocuments vectorServer). \<forall>v.
      mapGet [(js ''overview-1'', [1, 0])] (doc_id d) = Some v \<longrightarrow>
      cosineSimilarity (rnd vectorWorld) [0, 1] v \<le> 0"
    by (auto simp: vectorServer_def r cosine_orthogonal mapGet_def split: if_splits)
  from vector_fallback [OF k e q s, of 2] show ?thesis
    by (simp add: r cosine_orthogonal vectorServer_def keyword_what)
qed

section \<open>FAQ matcher: the best score and the threshold\<close>

lemma bestLoop_append: "bestLoop (xs @ ys) acc = bestLoop ys (bestLoop xs acc)"
  by (induction xs acc rule: bestLoop.induct) auto

lemma bestLoop_mono: "bs \<le> snd (bestLoop xs (b, bs))"
proof (induction xs arbitrary: b bs)
  case Nil
  then show ?case by simp
next
  case (Cons x xs)
  obtain f s where x: "x = (f, s)" by (cases x)
  show ?case
    using Cons.IH [of s "Some f"] Cons.IH [of bs b] by (simp add: x)
qed

lemma spec_faq_score_nonneg: "0 \<le> spec_faq_score query prompt"
  by (simp add: spec_faq_score_def)

lemma spec_faq_score_no_tokens: "tokenize prompt = [] \<Longrightarrow> spec_faq_score query prompt = 0"
  by (simp add: spec_faq_score_def)

lemma faqPromptLoop_bestLoop:
  assumes "0 \<le> bs"
  shows "faqPromptLoop (newSet (tokenize query)) f ps (b, bs) =
           bestLoop (map (\<lambda>p. (f, spec_faq_score query p)) ps) (b, bs)"
  using assms
proof (induction ps arbitrary: b bs)
  case Nil
  then show ?case by simp
next
  case (Cons p ps)
  show ?case
  proof (cases "tokenize p = []")
    case True
    with Cons show ?thesis
      by (simp add: spec_faq_score_no_tokens)
  next
    case False
    have s: "real (overlapCount (newSet (tokenize query)) (newSet (tokenize p))) /
             real (max (length (newSet (tokenize query))) (length (newSet (tokenize p)))) =
             spec_faq_score query p"
      by (simp add: spec_faq_score_def overlapCount_card length_newSet)
    from False Cons.prems show ?thesis
      using Cons.IH [of "spec_faq_score query p" "Some f"] Cons.IH [of bs b]
      by (simp add: s Let_def)
  qed
qed

lemma faqLoop_bestLoop:
  assumes "0 \<le> bs"
  shows "faqLoop (newSet (tokenize query)) faqs (b, bs) =
           bestLoop (map (\<lambda>(f, p). (f, spec_faq_score query p)) (faqPairs faqs)) (b, bs)"
  using assms
proof (induction faqs arbitrary: b bs)
  case Nil
  then show ?case by (simp add: faqPairs_def)
next
  case (Cons f faqs)
  let ?mid = "bestLoop (map (\<lambda>p. (f, spec_faq_score query p)) (prompts f)) (b, bs)"
  have "0 \<le> snd ?mid"
    using bestLoop_mono [of bs "map (\<lambda>p. (f, spec_faq_score query p)) (prompts f)" b] Cons.prems
    by simp
  then have "faqLoop (newSet (tokenize query)) faqs ?mid =
      bestLoop (map (\<lambda>(f, p). (f, spec_faq_score query p)) (faqPairs faqs)) ?mid"
    using Cons.IH [of "snd ?mid" "fst ?mid"] by simp
  then show ?case
    using Cons.prems
    by (simp add: faqPromptLoop_bestLoop faqPairs_def bestLoop_append comp_def)
qed

lemma bestOf_bestLoop: "bestOf xs (bestLoop xs (None, 0))"
proof (induction xs rule: rev_induct)
  case Nil
  then show ?case by (simp add: bestOf_def)
next
  case (snoc x xs)
  obtain f s where x: "x = (f, s)" by (cases x)
  obtain b bs where r: "bestLoop xs (None, 0) = (b, bs)" by (cases "bestLoop xs (None, 0)")
  from snoc r have inv: "bestOf xs (b, bs)" by simp
  show ?case
  proof (cases "s > bs")
    case True
    have "snd (xs ! j) \<le> bs" if "j < length xs" for j
      using inv nth_mem [OF that] by (simp add: bestOf_def)
    then have "\<forall>j<length xs. snd ((xs @ [x]) ! j) < s"
      using True by (fastforce simp: nth_append)
    moreover have "(xs @ [x]) ! length xs = (f, s)"
      by (simp add: x)
    ultimately have "\<exists>i<length (xs @ [x]). (xs @ [x]) ! i = (f, s) \<and> (\<forall>j<i. snd ((xs @ [x]) ! j) < s)"
      by (intro exI [of _ "length xs"]) simp
    moreover have "0 < s" "\<forall>y\<in>set (xs @ [x]). snd y \<le> s"
      using inv True by (auto simp: bestOf_def x)
    ultimately show ?thesis
      using True by (simp add: bestLoop_append r x bestOf_def)
  next
    case False
    have "bestOf (xs @ [x]) (b, bs)"
    proof (cases b)
      case None
      with inv False show ?thesis by (auto simp: bestOf_def x)
    next
      case (Some g)
      with inv obtain i where i: "i < length xs" "xs ! i = (g, bs)" "\<forall>j<i. snd (xs ! j) < bs"
        by (auto simp: bestOf_def)
      then have "i < length (xs @ [x]) \<and> (xs @ [x]) ! i = (g, bs) \<and> (\<forall>j<i. snd ((xs @ [x]) ! j) < bs)"
        by (simp add: nth_append)
      then have "\<exists>i<length (xs @ [x]). (xs @ [x]) ! i = (g, bs) \<and> (\<forall>j<i. snd ((xs @ [x]) ! j) < bs)"
        by blast
      with inv False Some show ?thesis
        by (simp add: bestOf_def x)
    qed
    with False show ?thesis
      by (simp add: bestLoop_append r x)
  qed
qed


lemma findFaqAnswer_bestLoop:
  assumes "tokenize query \<noteq> []"
    and "bestLoop (map (\<lambda>(f, p). (f, spec_faq_score query p)) (faqPairs faqs)) (None, 0) = (b, bs)"
  shows "findFaqAnswer faqs query = (if b \<noteq> None \<and> 7 / 10 \<le> bs then b else None)"
  using assms faqLoop_bestLoop [of 0 query faqs None]
  by (simp add: findFaqAnswer_def Let_def)

text \<open>
  C5. The FAQ matcher returns an entry exactly when some (entry, prompt) pair has a score
  \<open>|tokens(query) \<inter> tokens(prompt)| / max(|tokens(query)|, |tokens(prompt)|)\<close> of at
  least \<open>7/10\<close> that no pair exceeds; the entry returned is the one of the first pair that
  attains this best score. It returns nothing exactly when every pair scores below \<open>7/10\<close>.
\<close>

theorem faq_match:
  "(findFaqAnswer faqs query = Some f \<longleftrightarrow>
      (\<exists>i<length (faqPairs faqs).
          fst (faqPairs faqs ! i) = f \<and>
          7 / 10 \<le> spec_faq_score query (snd (faqPairs faqs ! i)) \<and>
          (\<forall>j<length (faqPairs faqs).
              spec_faq_score query (snd (faqPairs faqs ! j)) \<le>
              spec_faq_score query (snd (faqPairs faqs ! i))) \<and>
          (\<forall>j<i. spec_faq_score query (snd (faqPairs faqs ! j)) <
              spec_faq_score query (snd (faqPairs faqs ! i))))) \<and>
   (findFaqAnswer faqs query = None \<longleftrightarrow>
      (\<forall>x\<in>set (faqPairs faqs). spec_faq_score query (snd x) < 7 / 10))"
proof (cases "tokenize query = []")
  case True
  then have z: "spec_faq_score query p = 0" for p
    by (simp add: spec_faq_score_def)
  from True have "findFaqAnswer faqs query = None"
    by (simp add: findFaqAnswer_def)
  then show ?thesis
    by (simp add: z)
next
  case False
  define ps where "ps = faqPairs faqs"
  define sc where "sc i = spec_faq_score query (snd (ps ! i))" for i
  define xs where "xs = map (\<lambda>(f, p). (f, spec_faq_score query p)) ps"
  obtain b bs where r: "bestLoop xs (None, 0) = (b, bs)"
    by (cases "bestLoop xs (None, 0)")
  have res: "findFaqAnswer faqs query = (if b \<noteq> None \<and> 7 / 10 \<le> bs then b else None)"
    using findFaqAnswer_bestLoop [OF False, of faqs b bs] r by (simp add: xs_def ps_def)
  have inv: "bestOf xs (b, bs)"
    using bestOf_bestLoop [of xs] r by simp
  have len: "length xs = length ps"
    by (simp add: xs_def)
  have nth: "xs ! i = (fst (ps ! i), sc i)" if "i < length ps" for i
    using that by (simp add: xs_def sc_def case_prod_unfold)
  have le: "sc j \<le> bs" if "j < length ps" for j
    using inv nth_mem [of j xs] nth [OF that] that len by (auto simp: bestOf_def)
  have first: "\<exists>i<length ps. fst (ps ! i) = g \<and> sc i = bs \<and> (\<forall>j<i. sc j < bs)"
    if "b = Some g" for g
  proof -
    from inv that obtain i where i: "i < length xs" "xs ! i = (g, bs)" "\<forall>j<i. snd (xs ! j) < bs"
      by (auto simp: bestOf_def)
    then have "fst (ps ! i) = g" "sc i = bs"
      using nth [of i] len by simp_all
    moreover have "\<forall>j<i. sc j < bs"
      using i nth len by auto
    ultimately show ?thesis
      using i(1) len by auto
  qed
  have pos: "b = None \<Longrightarrow> bs = 0"
    using inv by (simp add: bestOf_def)
  have A: "findFaqAnswer faqs query = Some f \<longleftrightarrow>
      (\<exists>i<length ps. fst (ps ! i) = f \<and> 7 / 10 \<le> sc i \<and>
          (\<forall>j<length ps. sc j \<le> sc i) \<and> (\<forall>j<i. sc j < sc i))"
  proof
    assume "findFaqAnswer faqs query = Some f"
    with res have b: "b = Some f" "7 / 10 \<le> bs"
      by (auto split: if_splits)
    from first [OF b(1)] obtain i where "i < length ps" "fst (ps ! i) = f" "sc i = bs"
      "\<forall>j<i. sc j < bs"
      by blast
    with b(2) le show "\<exists>i<length ps. fst (ps ! i) = f \<and> 7 / 10 \<le> sc i \<and>
          (\<forall>j<length ps. sc j \<le> sc i) \<and> (\<forall>j<i. sc j < sc i)"
      by auto
  next
    assume "\<exists>i<length ps. fst (ps ! i) = f \<and> 7 / 10 \<le> sc i \<and>
          (\<forall>j<length ps. sc j \<le> sc i) \<and> (\<forall>j<i. sc j < sc i)"
    then obtain i where i: "i < length ps" "fst (ps ! i) = f" "7 / 10 \<le> sc i"
      "\<forall>j<length ps. sc j \<le> sc i" "\<forall>j<i. sc j < sc i"
      by blast
    have big: "7 / 10 \<le> bs"
      using le [OF i(1)] i(3) by simp
    with pos obtain g where g: "b = Some g"
      by (cases b) auto
    from first [OF g] obtain k where k: "k < length ps" "fst (ps ! k) = g" "sc k = bs"
      "\<forall>j<k. sc j < bs"
      by blast
    have "sc i = bs"
      using le [OF i(1)] i(4) k(1) k(3) by force
    have "k = i"
    proof (rule ccontr)
      assume "k \<noteq> i"
      then consider "k < i" | "i < k" by linarith
      then show False
      proof cases
        case 1
        with i(5) k(3) \<open>sc i = bs\<close> show False by force
      next
        case 2
        with k(4) \<open>sc i = bs\<close> show False by force
      qed
    qed
    with k(2) i(2) have "g = f" by simp
    with res g big show "findFaqAnswer faqs query = Some f"
      by simp
  qed
  have B: "findFaqAnswer faqs query = None \<longleftrightarrow> (\<forall>x\<in>set ps. spec_faq_score query (snd x) < 7 / 10)"
  proof
    assume n: "findFaqAnswer faqs query = None"
    have "bs < 7 / 10"
    proof (cases b)
      case None
      with pos show ?thesis by simp
    next
      case (Some g)
      with n res show ?thesis by (auto split: if_splits)
    qed
    moreover have "spec_faq_score query (snd x) \<le> bs" if "x \<in> set ps" for x
    proof -
      from that obtain j where "j < length ps" "ps ! j = x"
        by (auto simp: in_set_conv_nth)
      with le [of j] show ?thesis by (simp add: sc_def)
    qed
    ultimately show "\<forall>x\<in>set ps. spec_faq_score query (snd x) < 7 / 10"
      by fastforce
  next
    assume all: "\<forall>x\<in>set ps. spec_faq_score query (snd x) < 7 / 10"
    show "findFaqAnswer faqs query = None"
    proof (cases b)
      case None
      with res show ?thesis by simp
    next
      case (Some g)
      from first [OF Some] obtain k where "k < length ps" "sc k = bs"
        by blast
      with all have "bs < 7 / 10"
        using nth_mem [of k ps] by (auto simp: sc_def)
      with res show ?thesis by simp
    qed
  qed
  from A B show ?thesis
    by (simp add: ps_def sc_def)
qed


lemma tokenize_symptomsQuestion:
  "tokenize symptomsQuestion =
     [js ''what'', js ''are'', js ''the'', js ''common'', js ''early'', js ''signs'', js ''and'',
      js ''symptoms'', js ''with'', js ''pcos'']"
  by (simp add: symptomsQuestion_def text_eval)

lemma tokenize_symptomsPrompt:
  "tokenize (js ''What are the common signs and symptoms?'') =
     [js ''what'', js ''are'', js ''the'', js ''common'', js ''signs'', js ''and'', js ''symptoms'']"
  by (simp add: text_eval)

lemma tokenize_whatPrompt: "tokenize (js ''What is PCOS?'') = [js ''what'', js ''pcos'']"
  by (simp add: text_eval)

lemma score_symptoms:
  "spec_faq_score symptomsQuestion (js ''What are the common signs and symptoms?'') = 7 / 10"
  unfolding spec_faq_score_def tokenize_symptomsQuestion tokenize_symptomsPrompt
  by (simp add: js_simps)

lemma score_what:
  "spec_faq_score symptomsQuestion (js ''What is PCOS?'') = 2 / 10"
  unfolding spec_faq_score_def tokenize_symptomsQuestion tokenize_whatPrompt
  by (simp add: js_simps)

text \<open>
  Seven of the ten query tokens are the seven tokens of the prompt: the score is exactly
  \<open>7/10\<close> and the entry is returned, ahead of an earlier entry that scores \<open>2/10\<close>; that
  entry alone yields no shortcut.
\<close>

theorem faq_match_witness:
  "spec_faq_score symptomsQuestion (js ''What are the common signs and symptoms?'') = 7 / 10 \<and>
   findFaqAnswer [whatIsFaq, symptomsFaq] symptomsQuestion = Some symptomsFaq \<and>
   spec_faq_score symptomsQuestion (js ''What is PCOS?'') = 2 / 10 \<and>
   findFaqAnswer [whatIsFaq] symptomsQuestion = None"
proof -
  have p2: "faqPairs [whatIsFaq, symptomsFaq] =
      [(whatIsFaq, js ''What is PCOS?''), (symptomsFaq, js ''What are the common signs and symptoms?'')]"
    by (simp add: faqPairs_def whatIsFaq_def symptomsFaq_def)
  have p1: "faqPairs [whatIsFaq] = [(whatIsFaq, js ''What is PCOS?'')]"
    by (simp add: faqPairs_def whatIsFaq_def)
  have "\<exists>i<length (faqPairs [whatIsFaq, symptomsFaq]).
          fst (faqPairs [whatIsFaq, symptomsFaq] ! i) = symptomsFaq \<and>
          7 / 10 \<le> spec_faq_score symptomsQuestion (snd (faqPairs [whatIsFaq, symptomsFaq] ! i)) \<and>
          (\<forall>j<length (faqPairs [whatIsFaq, symptomsFaq]).
              spec_faq_score symptomsQuestion (snd (faqPairs [whatIsFaq, symptomsFaq] ! j)) \<le>
              spec_faq_score symptomsQuestion (snd (faqPairs [whatIsFaq, symptomsFaq] ! i))) \<and>
          (\<forall>j<i. spec_faq_score symptomsQuestion (snd (faqPairs [whatIsFaq, symptomsFaq] ! j)) <
              spec_faq_score symptomsQuestion (snd (faqPairs [whatIsFaq, symptomsFaq] ! i)))"
    unfolding p2
    by (rule exI [of _ 1]) (simp add: score_symptoms score_what less_Suc_eq)
  with faq_match [of "[whatIsFaq, symptomsFaq]" symptomsQuestion symptomsFaq]
  have hit: "findFaqAnswer [whatIsFaq, symptomsFaq] symptomsQuestion = Some symptomsFaq"
    by blast
  have "\<forall>x\<in>set (faqPairs [whatIsFaq]). spec_faq_score symptomsQuestion (snd x) < 7 / 10"
    by (simp add: p1 score_what)
  with faq_match [of "[whatIsFaq]" symptomsQuestion whatIsFaq]
  have miss: "findFaqAnswer [whatIsFaq] symptomsQuestion = None"
    by blast
  from hit miss show ?thesis
    by (simp add: score_symptoms score_what)
qed

section \<open>Embedding builder: fail-fast and order\<close>

lemma mapGet_Some_id:
  "mapGet (map (\<lambda>item. (item_id item, item)) items) k = Some item \<Longrightarrow> item_id item = k"
  by (auto simp: mapGet_def dest!: map_of_SomeD)

lemma mapGet_defined:
  "k \<in> item_id ` set items \<Longrightarrow> \<exists>item. mapGet (map (\<lambda>item. (item_id item, item)) items) k = Some item"
proof -
  assume "k \<in> item_id ` set items"
  then have "k \<in> fst ` set (rev (map (\<lambda>item. (item_id item, item)) items))"
    by force
  then show ?thesis
    unfolding mapGet_def by (metis map_of_eq_None_iff not_Some_eq)
qed

lemma orderedItems_ids:
  assumes "\<forall>d\<in>set docs. doc_id d \<in> item_id ` set items"
  shows "map item_id (orderedItems docs items) = map doc_id docs"
  using assms
proof (induction docs)
  case Nil
  then show ?case by (simp add: orderedItems_def map_filter_simps)
next
  case (Cons d docs)
  then obtain item where i: "mapGet (map (\<lambda>item. (item_id item, item)) items) (doc_id d) = Some item"
    using mapGet_defined [of "doc_id d" items] by auto
  with Cons mapGet_Some_id [OF i] show ?case
    by (simp add: orderedItems_def map_filter_simps)
qed

lemma splitDocs_ids:
  "splitDocs env em ds p its = (p1, its1) \<Longrightarrow>
   pending_id ` set p1 \<union> item_id ` set its1 =
     pending_id ` set p \<union> item_id ` set its \<union> doc_id ` set ds"
proof (induction ds arbitrary: p its)
  case Nil
  then show ?case by simp
next
  case (Cons d ds)
  then show ?case
    by (auto simp: Let_def split: option.splits if_splits dest!: Cons.IH)
qed

lemma pushBatch_ids:
  "pushBatch batch rs its = Inr its1 \<Longrightarrow> item_id ` set its1 = item_id ` set its \<union> pending_id ` set batch"
  by (induction batch rs its rule: pushBatch.induct) auto

lemma pushBatch_missing:
  "length rs = length batch \<Longrightarrow> None \<in> set rs \<Longrightarrow> \<exists>err. pushBatch batch rs its = Inl err"
  by (induction batch rs its rule: pushBatch.induct) auto

lemma set_drop_batch: "set (drop i xs) = set (take n (drop i xs)) \<union> set (drop (i + n) xs)"
proof -
  have "set (drop i xs) = set (take n (drop i xs) @ drop n (drop i xs))"
    by (simp only: append_take_drop_id)
  then show ?thesis
    by (simp add: add.commute)
qed

lemma embedBatches_ids:
  "embedBatches env p i its = Inr its1 \<Longrightarrow>
   item_id ` set its1 = item_id ` set its \<union> pending_id ` set (drop i p)"
proof (induction env p i its rule: embedBatches.induct)
  case (1 env p i its)
  show ?case
  proof (cases "i < length p")
    case False
    with "1.prems" show ?thesis by (simp add: embedBatches.simps [of env p i its])
  next
    case True
    let ?batch = "take (BATCH_SIZE env) (drop i p)"
    from True "1.prems" obtain rs its2 where
      rs: "getEmbeddings env i (map inputText ?batch) = Inr rs" "length rs = length ?batch"
      and pb: "pushBatch ?batch rs its = Inr its2"
      and rec: "embedBatches env p (i + BATCH_SIZE env) its2 = Inr its1"
      by (auto simp: embedBatches.simps [of env p i its] Let_def split: sum.splits if_splits)
    have "item_id ` set its1 = item_id ` set its2 \<union> pending_id ` set (drop (i + BATCH_SIZE env) p)"
      using "1.IH" [OF True refl rs(1) _ pb rec] rs(2) by simp
    with pushBatch_ids [OF pb] show ?thesis
      using set_drop_batch [of i p "BATCH_SIZE env"] by auto
  qed
qed

lemma embedBatches_bad:
  assumes "k * BATCH_SIZE env < length p"
    and "badResponse (batchAt env p (k * BATCH_SIZE env))
           (getEmbeddings env (k * BATCH_SIZE env) (map inputText (batchAt env p (k * BATCH_SIZE env))))"
  shows "m \<le> k \<Longrightarrow> \<exists>err. embedBatches env p (m * BATCH_SIZE env) its = Inl err"
proof (induction "k - m" arbitrary: m its)
  case 0
  then have m: "m = k" by simp
  from assms(2) obtain rs where
    rs: "getEmbeddings env (k * BATCH_SIZE env) (map inputText (batchAt env p (k * BATCH_SIZE env))) = Inr rs"
    and bad: "length rs \<noteq> length (batchAt env p (k * BATCH_SIZE env)) \<or> None \<in> set rs"
    by (auto simp: badResponse_def split: sum.splits)
  show ?case
  proof (cases "length rs = length (batchAt env p (k * BATCH_SIZE env))")
    case False
    with assms(1) rs show ?thesis
      by (simp add: m batchAt_def Let_def embedBatches.simps [of env p "k * BATCH_SIZE env" its])
  next
    case True
    with bad pushBatch_missing [of rs "batchAt env p (k * BATCH_SIZE env)" its]
    obtain err where "pushBatch (batchAt env p (k * BATCH_SIZE env)) rs its = Inl err"
      by auto
    with assms(1) rs True show ?thesis
      by (simp add: m batchAt_def Let_def embedBatches.simps [of env p "k * BATCH_SIZE env" its])
  qed
next
  case (Suc n)
  then have lt: "m < k" and n: "n = k - Suc m" and le: "Suc m \<le> k"
    by simp_all
  have "m * BATCH_SIZE env \<le> k * BATCH_SIZE env"
    using lt mult_le_mono1 [of m k "BATCH_SIZE env"] by linarith
  with assms(1) have here: "m * BATCH_SIZE env < length p"
    by linarith
  have step: "m * BATCH_SIZE env + BATCH_SIZE env = Suc m * BATCH_SIZE env"
    by simp
  show ?case
  proof (cases "embedBatches env p (m * BATCH_SIZE env) its")
    case (Inl err)
    then show ?thesis by simp
  next
    case (Inr its1)
    with here obtain its2 where "embedBatches env p (Suc m * BATCH_SIZE env) its2 = Inr its1"
      unfolding step [symmetric]
      by (auto simp: embedBatches.simps [of env p "m * BATCH_SIZE env" its] Let_def
          split: sum.splits if_splits)
    with Suc.hyps(1) [OF n le, of its2] show ?thesis
      by simp
  qed
qed


lemma main_error_frame: "main env fs = (Inl err, fs1) \<Longrightarrow> fs1 = fs"
  by (auto simp: main_def split: if_splits json_file.splits prod.splits sum.splits)

lemma main_bad_batch:
  assumes "k * BATCH_SIZE env < length (pendingOf env fs)"
    and "badResponse (batchAt env (pendingOf env fs) (k * BATCH_SIZE env))
           (getEmbeddings env (k * BATCH_SIZE env)
              (map inputText (batchAt env (pendingOf env fs) (k * BATCH_SIZE env))))"
  shows "\<exists>err. main env fs = (Inl err, fs)"
proof -
  from assms(1) obtain docs where d: "docsFile fs = Parsed docs"
    by (cases "docsFile fs") (simp_all add: pendingOf_def)
  obtain p its where s: "splitDocs env (existingMap (outFile fs)) docs [] [] = (p, its)"
    by (cases "splitDocs env (existingMap (outFile fs)) docs [] []")
  then have p: "pendingOf env fs = p"
    by (simp add: pendingOf_def d)
  from embedBatches_bad [OF assms [unfolded p], of 0 its]
  obtain err where "embedBatches env p 0 its = Inl err"
    by auto
  then show ?thesis
    by (simp add: main_def d s)
qed

text \<open>
  C7. A run of the embedding builder that ends in an error leaves both files as they were.
  A run ends in an error whenever the response to some batch has an item count other than
  the batch size or lacks an embedding. A run that succeeds leaves the documents file as it
  was and writes an index under the configured model whose items carry the document ids in
  the order of the documents file.
\<close>

theorem builder_fail_fast:
  "(main env fs = (Inl err, fs1) \<longrightarrow> fs1 = fs) \<and>
   (k * BATCH_SIZE env < length (pendingOf env fs) \<and>
    badResponse (batchAt env (pendingOf env fs) (k * BATCH_SIZE env))
      (getEmbeddings env (k * BATCH_SIZE env)
         (map inputText (batchAt env (pendingOf env fs) (k * BATCH_SIZE env)))) \<longrightarrow>
    (\<exists>e. main env fs = (Inl e, fs))) \<and>
   (main env fs = (Inr (), fs1) \<and> docsFile fs = Parsed docs \<longrightarrow>
    docsFile fs1 = Parsed docs \<and>
    (\<exists>items. outFile fs1 = Parsed (MODEL env, items) \<and> map item_id items = map doc_id docs))"
proof (intro conjI impI)
  assume "main env fs = (Inl err, fs1)"
  then show "fs1 = fs" by (rule main_error_frame)
next
  assume "k * BATCH_SIZE env < length (pendingOf env fs) \<and>
    badResponse (batchAt env (pendingOf env fs) (k * BATCH_SIZE env))
      (getEmbeddings env (k * BATCH_SIZE env)
         (map inputText (batchAt env (pendingOf env fs) (k * BATCH_SIZE env))))"
  then show "\<exists>e. main env fs = (Inl e, fs)"
    using main_bad_batch by blast
next
  assume a: "main env fs = (Inr (), fs1) \<and> docsFile fs = Parsed docs"
  obtain p its where s: "splitDocs env (existingMap (outFile fs)) docs [] [] = (p, its)"
    by (cases "splitDocs env (existingMap (outFile fs)) docs [] []")
  from a s obtain its1 where e: "embedBatches env p 0 its = Inr its1"
    and f: "fs1 = fs\<lparr>outFile := Parsed (MODEL env, orderedItems docs its1)\<rparr>"
    by (auto simp: main_def split: if_splits sum.splits)
  have "pending_id ` set p \<union> item_id ` set its = doc_id ` set docs"
    using splitDocs_ids [OF s] by simp
  with embedBatches_ids [OF e] have "\<forall>d\<in>set docs. doc_id d \<in> item_id ` set its1"
    by auto
  then have "map item_id (orderedItems docs its1) = map doc_id docs"
    by (rule orderedItems_ids)
  with f a show "docsFile fs1 = Parsed docs" 
    by simp
  from f \<open>map item_id (orderedItems docs its1) = map doc_id docs\<close>
  show "\<exists>items. outFile fs1 = Parsed (MODEL env, items) \<and> map item_id items = map doc_id docs"
    by simp
qed

lemma batch_size_example: "BATCH_SIZE shortEnv = 2" "BATCH_SIZE completeEnv = 2"
  by (simp_all add: BATCH_SIZE_def shortEnv_def completeEnv_def)

lemma pending_example:
  "pendingOf shortEnv exampleFiles =
     map (\<lambda>d. \<lparr>pending_id = doc_id d, inputText = title d @ [10] @ content d,
                pending_hash = title d @ [10] @ content d\<rparr>)
       [overviewDoc, lifestyleDoc, risksDoc]"
  by (simp add: pendingOf_def exampleFiles_def existingMap_def mapGet_def Let_def shortEnv_def)

lemma bad_batch_example:
  "badResponse (batchAt shortEnv (pendingOf shortEnv exampleFiles) (1 * BATCH_SIZE shortEnv))
     (getEmbeddings shortEnv (1 * BATCH_SIZE shortEnv)
        (map inputText (batchAt shortEnv (pendingOf shortEnv exampleFiles) (1 * BATCH_SIZE shortEnv))))"
  unfolding pending_example batchAt_def batch_size_example
  by (simp add: badResponse_def shortEnv_def)

lemma main_complete: "fst (main completeEnv exampleFiles) = Inr ()"
  by (simp add: main_def exampleFiles_def existingMap_def mapGet_def Let_def
      embedBatches.simps BATCH_SIZE_def completeEnv_def js_simps)

text \<open>
  Three documents in batches of two. An endpoint that answers the second batch with no
  item aborts the run and the files are unchanged; an endpoint that answers every input
  yields an index in document order.
\<close>

theorem builder_fail_fast_witness:
  "(\<exists>e. main shortEnv exampleFiles = (Inl e, exampleFiles)) \<and>
   fst (main completeEnv exampleFiles) = Inr () \<and>
   (\<exists>items. outFile (snd (main completeEnv exampleFiles)) = Parsed (MODEL completeEnv, items) \<and>
      map item_id items = [js ''overview-1'', js ''lifestyle-1'', js ''risks-1''])"
proof -
  have d: "docsFile exampleFiles = Parsed [overviewDoc, lifestyleDoc, risksDoc]"
    by (simp add: exampleFiles_def)
  have m: "main completeEnv exampleFiles = (Inr (), snd (main completeEnv exampleFiles))"
    using main_complete by (cases "main completeEnv exampleFiles") simp
  have b: "1 * BATCH_SIZE shortEnv < length (pendingOf shortEnv exampleFiles)"
    unfolding pending_example batch_size_example by simp
  from builder_fail_fast [of shortEnv exampleFiles _ _ 1] b bad_batch_example
  have 1: "\<exists>e. main shortEnv exampleFiles = (Inl e, exampleFiles)"
    by blast
  from builder_fail_fast [of completeEnv exampleFiles _ "snd (main completeEnv exampleFiles)" _
      "[overviewDoc, lifestyleDoc, risksDoc]"] m d
  have 2: "\<exists>items. outFile (snd (main completeEnv exampleFiles)) = Parsed (MODEL completeEnv, items) \<and>
      map item_id items = map doc_id [overviewDoc, lifestyleDoc, risksDoc]"
    by blast
  from 1 2 main_complete show ?thesis
    by (simp add: overviewDoc_def lifestyleDoc_def risksDoc_def)
qed

section \<open>Cosine similarity: symmetry, degenerate inputs, self-similarity\<close>

lemma cosineLoop_swap:
  "cosineLoop r a b (d, x, y) = (d1, x1, y1) \<Longrightarrow> cosineLoop r b a (d, y, x) = (d1, y1, x1)"
proof (induction a arbitrary: b d x y)
  case Nil
  then show ?case by (cases b) auto
next
  case (Cons v a)
  show ?case
  proof (cases b)
    case Nil
    with Cons.prems show ?thesis by simp
  next
    case (Cons w b')
    with Cons.prems Cons.IH [of b' "r (d + r (v * w))" "r (x + r (v * v))" "r (y + r (w * w))"]
    show ?thesis
      by (simp add: mult.commute)
  qed
qed

lemma cosine_symmetric: "cosineSimilarity r a b = cosineSimilarity r b a"
proof -
  obtain d x y where l: "cosineLoop r a b (0, 0, 0) = (d, x, y)"
    by (cases "cosineLoop r a b (0, 0, 0)")
  from cosineLoop_swap [OF l] l show ?thesis
    by (auto simp: cosineSimilarity_def mult.commute)
qed

lemma cosineLoop_norms:
  "length a = length b \<Longrightarrow>
   fst (snd (cosineLoop r a b (d, x, y))) = normLoop r a x \<and>
   snd (snd (cosineLoop r a b (d, x, y))) = normLoop r b y"
proof (induction a arbitrary: b d x y)
  case Nil
  then show ?case by (simp add: normLoop_def)
next
  case (Cons v a)
  then obtain w b' where b: "b = w # b'" "length a = length b'"
    by (cases b) auto
  with Cons.IH [of b' "r (d + r (v * w))" "r (x + r (v * v))" "r (y + r (w * w))"]
  show ?case
    by (simp add: normLoop_def)
qed

lemma cosineLoop_self:
  "cosineLoop r a a (x, x, x) = (normLoop r a x, normLoop r a x, normLoop r a x)"
proof (induction a arbitrary: x)
  case Nil
  then show ?case by (simp add: normLoop_def)
next
  case (Cons v a)
  from Cons [of "r (x + r (v * v))"] show ?case
    by (simp add: normLoop_def)
qed

lemma relError_zero: "relError u r \<Longrightarrow> r 0 = 0"
  unfolding relError_def by (metis abs_le_zero_iff abs_zero diff_zero mult_zero_right)

lemma relError_bounds:
  assumes "relError u r" "0 \<le> x"
  shows "(1 - u) * x \<le> r x" "r x \<le> (1 + u) * x"
proof -
  from assms have "\<bar>r x - x\<bar> \<le> u * x"
    unfolding relError_def by (metis abs_of_nonneg)
  then show "(1 - u) * x \<le> r x" "r x \<le> (1 + u) * x"
    by (simp_all add: algebra_simps abs_le_iff)
qed

lemma relError_pos:
  assumes "relError u r" "u < 1" "0 < x"
  shows "0 < r x"
proof -
  have "0 < (1 - u) * x"
    using assms by simp
  with relError_bounds(1) [OF assms(1), of x] assms(3) show ?thesis
    by linarith
qed

lemma relError_nonneg:
  assumes "relError u r" "u < 1" "0 \<le> x"
  shows "0 \<le> r x"
  using relError_pos [OF assms(1,2), of x] relError_zero [OF assms(1)] assms(3)
  by (cases "x = 0") auto

lemma normLoop_zero:
  assumes "relError u r" "\<forall>x\<in>set a. x = 0"
  shows "normLoop r a 0 = 0"
  using assms(2) by (induction a) (simp_all add: normLoop_def relError_zero [OF assms(1)])

lemma normLoop_nonneg:
  assumes "relError u r" "u < 1"
  shows "0 \<le> n \<Longrightarrow> 0 \<le> normLoop r a n"
proof (induction a arbitrary: n)
  case Nil
  then show ?case by (simp add: normLoop_def)
next
  case (Cons v a)
  have "0 \<le> r (v * v)"
    using relError_nonneg [OF assms] by simp
  with Cons.prems have "0 \<le> r (n + r (v * v))"
    using relError_nonneg [OF assms] by simp
  from Cons.IH [OF this] show ?case
    by (simp add: normLoop_def)
qed

lemma normLoop_pos_acc:
  assumes "relError u r" "u < 1"
  shows "0 < n \<Longrightarrow> 0 < normLoop r a n"
proof (induction a arbitrary: n)
  case Nil
  then show ?case by (simp add: normLoop_def)
next
  case (Cons v a)
  have "0 \<le> r (v * v)"
    using relError_nonneg [OF assms] by simp
  with Cons.prems have "0 < r (n + r (v * v))"
    using relError_pos [OF assms] by simp
  from Cons.IH [OF this] show ?case
    by (simp add: normLoop_def)
qed

lemma normLoop_pos:
  assumes "relError u r" "u < 1"
  shows "0 \<le> n \<Longrightarrow> \<exists>x\<in>set a. x \<noteq> 0 \<Longrightarrow> 0 < normLoop r a n"
proof (induction a arbitrary: n)
  case Nil
  then show ?case by simp
next
  case (Cons v a)
  have sq: "0 \<le> r (v * v)"
    using relError_nonneg [OF assms] by simp
  show ?case
  proof (cases "v = 0")
    case True
    with Cons.prems have "\<exists>x\<in>set a. x \<noteq> 0" by simp
    moreover have "0 \<le> r (n + r (v * v))"
      using relError_nonneg [OF assms] sq Cons.prems(1) by simp
    ultimately show ?thesis
      using Cons.IH by (simp add: normLoop_def)
  next
    case False
    then have "0 < v * v"
      using zero_le_square [of v] by (simp add: less_le)
    then have "0 < r (v * v)"
      by (rule relError_pos [OF assms])
    with Cons.prems(1) have "0 < r (n + r (v * v))"
      using relError_pos [OF assms] by simp
    from normLoop_pos_acc [OF assms this] show ?thesis
      by (simp add: normLoop_def)
  qed
qed


lemma cosine_self_value:
  assumes "a \<noteq> []" "normLoop r a 0 \<noteq> 0"
  shows "cosineSimilarity r a a =
           r (normLoop r a 0 / r (r (sqrt (normLoop r a 0)) * r (sqrt (normLoop r a 0))))"
  using assms by (simp add: cosineSimilarity_def cosineLoop_self)

lemma cosine_self_bounds:
  assumes r: "relError u r" and u: "0 \<le> u" "u < 1" and a: "\<exists>x\<in>set a. x \<noteq> 0"
  shows "(1 - u) / (1 + u) ^ 3 \<le> cosineSimilarity r a a \<and>
         cosineSimilarity r a a \<le> (1 + u) / (1 - u) ^ 3"
proof -
  define N where "N = normLoop r a 0"
  define S where "S = r (sqrt N)"
  define P where "P = r (S * S)"
  define Q where "Q = N / P"
  have N: "0 < N"
    unfolding N_def using normLoop_pos [OF r u(2) _ a] by simp
  from a have "a \<noteq> []" by auto
  then have val: "cosineSimilarity r a a = r Q"
    using cosine_self_value [of a r] N by (simp add: N_def S_def P_def Q_def)
  have lo: "0 < 1 - u" and hi: "0 < 1 + u"
    using u by simp_all
  have sq: "sqrt N * sqrt N = N"
    using N by simp
  have S1: "(1 - u) * sqrt N \<le> S" and S2: "S \<le> (1 + u) * sqrt N"
    unfolding S_def using relError_bounds [OF r, of "sqrt N"] N by simp_all
  have S0: "0 \<le> (1 - u) * sqrt N"
    using lo N by simp
  then have Spos: "0 \<le> S"
    using S1 by linarith
  have "((1 - u) * sqrt N) * ((1 - u) * sqrt N) \<le> S * S"
    using S1 S0 Spos by (intro mult_mono) simp_all
  moreover have "((1 - u) * sqrt N) * ((1 - u) * sqrt N) = (1 - u) ^ 2 * N"
    using sq by (simp add: power2_eq_square algebra_simps)
  ultimately have SS1: "(1 - u) ^ 2 * N \<le> S * S"
    by simp
  have "S * S \<le> ((1 + u) * sqrt N) * ((1 + u) * sqrt N)"
    using S2 Spos by (intro mult_mono) simp_all
  moreover have "((1 + u) * sqrt N) * ((1 + u) * sqrt N) = (1 + u) ^ 2 * N"
    using sq by (simp add: power2_eq_square algebra_simps)
  ultimately have SS2: "S * S \<le> (1 + u) ^ 2 * N"
    by simp
  have SS0: "0 \<le> S * S"
    by simp
  have "(1 - u) * (S * S) \<le> P" "P \<le> (1 + u) * (S * S)"
    unfolding P_def using relError_bounds [OF r SS0] by simp_all
  moreover have "(1 - u) * ((1 - u) ^ 2 * N) \<le> (1 - u) * (S * S)"
    using SS1 lo by (intro mult_left_mono) simp_all
  moreover have "(1 + u) * (S * S) \<le> (1 + u) * ((1 + u) ^ 2 * N)"
    using SS2 hi by (intro mult_left_mono) simp_all
  ultimately have P1: "(1 - u) ^ 3 * N \<le> P" and P2: "P \<le> (1 + u) ^ 3 * N"
    by (simp_all add: power3_eq_cube power2_eq_square algebra_simps)
  have lo3: "0 < (1 - u) ^ 3" and hi3: "0 < (1 + u) ^ 3"
    using lo hi by simp_all
  have Ppos: "0 < P"
    using P1 lo3 N by (meson less_le_trans mult_pos_pos)
  have Q1: "1 / (1 + u) ^ 3 \<le> Q"
  proof -
    have "N / ((1 + u) ^ 3 * N) \<le> N / P"
      using P2 Ppos N by (intro divide_left_mono) (simp_all add: hi3)
    then show ?thesis
      using N by (simp add: Q_def)
  qed
  have Q2: "Q \<le> 1 / (1 - u) ^ 3"
  proof -
    have "N / P \<le> N / ((1 - u) ^ 3 * N)"
      using P1 Ppos N lo3 by (intro divide_left_mono) simp_all
    then show ?thesis
      using N by (simp add: Q_def)
  qed
  have Qpos: "0 \<le> Q"
    using N Ppos by (simp add: Q_def)
  have R: "(1 - u) * Q \<le> r Q" "r Q \<le> (1 + u) * Q"
    using relError_bounds [OF r Qpos] by simp_all
  have "(1 - u) * (1 / (1 + u) ^ 3) \<le> (1 - u) * Q"
    using Q1 lo by (intro mult_left_mono) simp_all
  with R(1) have A: "(1 - u) / (1 + u) ^ 3 \<le> r Q"
    by simp
  have "(1 + u) * Q \<le> (1 + u) * (1 / (1 - u) ^ 3)"
    using Q2 hi by (intro mult_left_mono) simp_all
  with R(2) have B: "r Q \<le> (1 + u) / (1 - u) ^ 3"
    by simp
  from A B val show ?thesis
    by simp
qed

lemma relError_exact: "relError 0 (\<lambda>x. x)"
  by (simp add: relError_def)

lemma cosine_self_exact:
  assumes "\<exists>x\<in>set a. x \<noteq> 0"
  shows "cosineSimilarity (\<lambda>x. x) a a = 1"
  using cosine_self_bounds [OF relError_exact _ _ assms] by simp

lemma cosine_degenerate:
  "length a \<noteq> length b \<or> a = [] \<or> b = [] \<Longrightarrow> cosineSimilarity r a b = - 1"
  by (auto simp: cosineSimilarity_def)

lemma cosine_zero_norm:
  assumes "relError u r" "length a = length b" "(\<forall>x\<in>set a. x = 0) \<or> (\<forall>x\<in>set b. x = 0)"
  shows "cosineSimilarity r a b = - 1"
proof -
  obtain d x y where l: "cosineLoop r a b (0, 0, 0) = (d, x, y)"
    by (cases "cosineLoop r a b (0, 0, 0)")
  with cosineLoop_norms [OF assms(2), of r 0 0 0] have "x = normLoop r a 0" "y = normLoop r b 0"
    by simp_all
  with assms(3) normLoop_zero [OF assms(1)] have "x = 0 \<or> y = 0"
    by auto
  with l show ?thesis
    by (auto simp: cosineSimilarity_def)
qed

subsection \<open>Rounding to binary64\<close>

lemma roundTiesToEven_near:
  assumes "of_int n - 1 / 2 < x" "x < of_int n + 1 / 2"
  shows "roundTiesToEven x = n"
proof -
  have "\<lfloor>x\<rfloor> = n \<or> \<lfloor>x\<rfloor> = n - 1"
    using assms by linarith
  then show ?thesis
  proof
    assume "\<lfloor>x\<rfloor> = n"
    with assms show ?thesis
      by (simp add: roundTiesToEven_def)
  next
    assume f: "\<lfloor>x\<rfloor> = n - 1"
    with assms have "1 / 2 < x - of_int (n - 1)"
      by simp
    with f show ?thesis
      by (simp add: roundTiesToEven_def)
  qed
qed

lemma binary64_eq:
  assumes "2 powi e \<le> x" "x < 2 powi (e + 1)"
    and "of_int n - 1 / 2 < x / 2 powi (e - 52)" "x / 2 powi (e - 52) < of_int n + 1 / 2"
  shows "binary64 x = of_int n * 2 powi (e - 52)"
proof -
  have pos: "0 < x"
    using assms(1) by (smt (verit) zero_less_power_int)
  have a: "(2::real) powr real_of_int e = 2 powi e"
    by (simp add: powr_real_of_int')
  have b: "(2::real) powr (real_of_int e + 1) = 2 powi (e + 1)"
    using powr_real_of_int' [of "2::real" "e + 1"] by simp
  have "\<lfloor>log 2 x\<rfloor> = e"
    using assms(1,2) pos by (simp add: floor_log_eq_powr_iff a b)
  with pos roundTiesToEven_near [OF assms(3,4)] show ?thesis
    by (simp add: binary64_def)
qed

lemma binary64_one: "binary64 1 = 1"
  using binary64_eq [of 0 1 "2 ^ 52"] by simp

lemma binary64_two: "binary64 2 = 2"
  using binary64_eq [of 1 2 "2 ^ 52"] by simp


lemma sqrt2_lower: "(12738103345051545 :: real) / 2 ^ 53 < sqrt 2"
  by (rule real_less_rsqrt) (simp add: power2_eq_square)

lemma sqrt2_upper: "sqrt 2 < (12738103345051547 :: real) / 2 ^ 53"
  by (rule real_less_lsqrt) (simp_all add: power2_eq_square)

lemma binary64_sqrt2: "binary64 (sqrt 2) = 6369051672525773 / 2 ^ 52"
proof -
  have "(1::real) \<le> sqrt 2" "sqrt 2 < 2"
    using sqrt2_lower sqrt2_upper by simp_all
  then have "binary64 (sqrt 2) = of_int 6369051672525773 * 2 powi (0 - 52)"
    using sqrt2_lower sqrt2_upper by (intro binary64_eq) (simp_all add: field_simps)
  then show ?thesis
    by (simp add: power_int_minus field_simps)
qed

lemma binary64_square:
  "binary64 (6369051672525773 / 2 ^ 52 * (6369051672525773 / 2 ^ 52)) = 4503599627370497 / 2 ^ 51"
proof -
  have "binary64 (6369051672525773 / 2 ^ 52 * (6369051672525773 / 2 ^ 52)) =
      of_int 4503599627370497 * 2 powi (1 - 52)"
    by (intro binary64_eq) (simp_all add: power_int_minus field_simps)
  then show ?thesis
    by (simp add: power_int_minus field_simps)
qed

lemma binary64_quotient:
  "binary64 (2 / (4503599627370497 / 2 ^ 51)) = 9007199254740990 / 2 ^ 53"
proof -
  have "binary64 (2 / (4503599627370497 / 2 ^ 51)) = of_int 9007199254740990 * 2 powi (- 1 - 52)"
    by (intro binary64_eq) (simp_all add: power_int_minus field_simps)
  then show ?thesis
    by (simp add: power_int_minus field_simps)
qed

text \<open>
  In binary64 the vector \<open>[1, 1]\<close> has similarity \<open>1 - 2^-52\<close> with itself, printed as
  \<open>0.9999999999999998\<close>: the squared norm is 2, the rounded root squared is
  \<open>2 + 2^-51\<close>, and the quotient rounds below 1.
\<close>

theorem cosine_self_counterexample:
  "cosineSimilarity binary64 [1, 1] [1, 1] = 9007199254740990 / 2 ^ 53 \<and>
   cosineSimilarity binary64 [1, 1] [1, 1] \<noteq> 1"
proof -
  have "cosineSimilarity binary64 [1, 1] [1, 1] =
      binary64 (2 / binary64 (binary64 (sqrt 2) * binary64 (sqrt 2)))"
    by (simp add: cosineSimilarity_def binary64_one binary64_two)
  also have "\<dots> = 9007199254740990 / 2 ^ 53"
    by (simp only: binary64_sqrt2 binary64_square binary64_quotient)
  finally have v: "cosineSimilarity binary64 [1, 1] [1, 1] = 9007199254740990 / 2 ^ 53" .
  then show ?thesis
    by simp
qed


lemma roundTiesToEven_error: "\<bar>of_int (roundTiesToEven y) - y\<bar> \<le> 1 / 2"
proof -
  have "of_int \<lfloor>y\<rfloor> \<le> y" "y < of_int \<lfloor>y\<rfloor> + 1"
    by linarith+
  then show ?thesis
    by (auto simp: roundTiesToEven_def Let_def)
qed

lemma binary64_relError: "relError (1 / 2 ^ 53) binary64"
  unfolding relError_def
proof
  fix x :: real
  show "\<bar>binary64 x - x\<bar> \<le> 1 / 2 ^ 53 * \<bar>x\<bar>"
  proof (cases "x = 0")
    case True
    then show ?thesis by (simp add: binary64_def)
  next
    case False
    define e where "e = \<lfloor>log 2 \<bar>x\<bar>\<rfloor>"
    define s :: real where "s = 2 powi (e - 52)"
    have s: "0 < s"
      by (simp add: s_def)
    have "2 powr real_of_int e \<le> \<bar>x\<bar>"
      using False floor_log_eq_powr_iff [of "\<bar>x\<bar>" 2 e] by (simp add: e_def)
    then have low: "2 powi e \<le> \<bar>x\<bar>"
      by (simp add: powr_real_of_int')
    have se: "s * 2 ^ 52 = 2 powi e"
      by (simp add: s_def power_int_diff)
    have "binary64 x = of_int (roundTiesToEven (x / s)) * s"
      using False by (simp add: binary64_def e_def s_def Let_def)
    then have "binary64 x - x = (of_int (roundTiesToEven (x / s)) - x / s) * s"
      using s by (simp add: field_simps)
    then have "\<bar>binary64 x - x\<bar> = \<bar>of_int (roundTiesToEven (x / s)) - x / s\<bar> * s"
      using s by (simp add: abs_mult)
    also have "\<dots> \<le> 1 / 2 * s"
      using roundTiesToEven_error [of "x / s"] s by (intro mult_right_mono) simp_all
    also have "\<dots> = 1 / 2 ^ 53 * (s * 2 ^ 52)"
      by simp
    also have "\<dots> \<le> 1 / 2 ^ 53 * \<bar>x\<bar>"
      using low se by (intro mult_left_mono) simp_all
    finally show ?thesis .
  qed
qed

subsection \<open>The properties of the similarity\<close>

text \<open>
  C8, as the code has it. The similarity is symmetric in its arguments under every
  rounding. It is \<open>-1\<close> when the dimensions differ or an input is empty, and when the
  dimensions agree and one vector is zero. For a non-zero vector \<open>a\<close> and a rounding of
  relative error at most \<open>u < 1\<close>, \<open>similarity(a, a)\<close> lies between
  \<open>(1 - u) / (1 + u)^3\<close> and \<open>(1 + u) / (1 - u)^3\<close>; in exact arithmetic it is 1.
\<close>

theorem cosine_properties:
  "cosineSimilarity r a b = cosineSimilarity r b a \<and>
   (length a \<noteq> length b \<or> a = [] \<or> b = [] \<longrightarrow> cosineSimilarity r a b = - 1) \<and>
   (relError u r \<and> length a = length b \<and> ((\<forall>x\<in>set a. x = 0) \<or> (\<forall>x\<in>set b. x = 0)) \<longrightarrow>
      cosineSimilarity r a b = - 1) \<and>
   (relError u r \<and> 0 \<le> u \<and> u < 1 \<and> (\<exists>x\<in>set a. x \<noteq> 0) \<longrightarrow>
      (1 - u) / (1 + u) ^ 3 \<le> cosineSimilarity r a a \<and>
      cosineSimilarity r a a \<le> (1 + u) / (1 - u) ^ 3) \<and>
   ((\<exists>x\<in>set a. x \<noteq> 0) \<longrightarrow> cosineSimilarity (\<lambda>x. x) a a = 1)"
  using cosine_symmetric [of r a b] cosine_degenerate [of a b r] cosine_zero_norm [of u r a b]
    cosine_self_bounds [of u r a] cosine_self_exact [of a]
  by blast

lemma cosine_example: "cosineSimilarity (\<lambda>x. x) [3, 4] [4, 3] = 24 / 25"
  by (simp add: cosineSimilarity_def)

text \<open>
  In exact arithmetic \<open>[3, 4]\<close> and \<open>[4, 3]\<close> have similarity \<open>24/25\<close> either way round,
  \<open>[3, 4]\<close> has similarity 1 with itself, a zero vector and a dimension mismatch give
  \<open>-1\<close>; in binary64, \<open>[1, 1]\<close> has a similarity with itself within the bounds for
  \<open>u = 2^-53\<close>.
\<close>

theorem cosine_properties_witness:
  "cosineSimilarity (\<lambda>x. x) [3, 4] [4, 3] = 24 / 25 \<and>
   cosineSimilarity (\<lambda>x. x) [4, 3] [3, 4] = 24 / 25 \<and>
   cosineSimilarity (\<lambda>x. x) [3, 4] [3, 4] = 1 \<and>
   cosineSimilarity (\<lambda>x. x) [0, 0] [3, 4] = - 1 \<and>
   cosineSimilarity (\<lambda>x. x) [1] [1, 2] = - 1 \<and>
   (1 - 1 / 2 ^ 53) / (1 + 1 / 2 ^ 53) ^ 3 \<le> cosineSimilarity binary64 [1, 1] [1, 1] \<and>
   cosineSimilarity binary64 [1, 1] [1, 1] \<le> (1 + 1 / 2 ^ 53) / (1 - 1 / 2 ^ 53) ^ 3"
proof -
  have e: "relError 0 (\<lambda>x. x)"
    by (rule relError_exact)
  have u: "(0::real) \<le> 1 / 2 ^ 53" "(1::real) / 2 ^ 53 < 1"
    by simp_all
  have n: "\<exists>x\<in>set [1, 1 :: real]. x \<noteq> 0" "\<exists>x\<in>set [3, 4 :: real]. x \<noteq> 0"
    "\<forall>x\<in>set [0, 0 :: real]. x = 0"
    by simp_all
  from cosine_properties [of "\<lambda>x. x" "[3, 4]" "[4, 3]" 0]
  have 1: "cosineSimilarity (\<lambda>x. x) [4, 3] [3, 4] = 24 / 25"
    "cosineSimilarity (\<lambda>x. x) [3, 4] [3, 4] = 1"
    using cosine_example n(2) by simp_all
  from cosine_properties [of "\<lambda>x. x" "[0, 0]" "[3, 4]" 0] e n(3)
  have 2: "cosineSimilarity (\<lambda>x. x) [0, 0] [3, 4] = - 1"
    by simp
  from cosine_properties [of "\<lambda>x. x" "[1]" "[1, 2]" 0]
  have 3: "cosineSimilarity (\<lambda>x. x) [1] [1, 2] = - 1"
    by simp
  from cosine_properties [of binary64 "[1, 1]" "[1, 1]" "1 / 2 ^ 53"] binary64_relError u n(1)
  have 4: "(1 - 1 / 2 ^ 53) / (1 + 1 / 2 ^ 53) ^ 3 \<le> cosineSimilarity binary64 [1, 1] [1, 1]"
    "cosineSimilarity binary64 [1, 1] [1, 1] \<le> (1 + 1 / 2 ^ 53) / (1 - 1 / 2 ^ 53) ^ 3"
    by blast+
  from cosine_example 1 2 3 4 show ?thesis
    by blast
qed

section \<open>Chunker: the size of the chunks\<close>

lemmas chunk_eval =
  chunkText_def normalizeWhitespace_def getTailAtWordBoundary_def jsSlice_def trim_def
  isWhiteSpace_def js_simps Let_def

lemma chunk_exceeds_small:
  "chunkText (js ''aaaa bbbb'' @ [10, 10] @ js ''cccccccc'') 10 4 =
     Some [js ''aaaa bbbb'', js ''bbbb'' @ [10, 10] @ js ''cccccccc''] \<and>
   length (js ''bbbb'' @ [10, 10] @ js ''cccccccc'') = 14"
  by (simp add: chunk_eval)

lemma splitBlankLines_plain: "10 \<notin> set s \<Longrightarrow> splitBlankLines cur s = [cur @ s]"
  by (induction s arbitrary: cur) auto

lemma splitBlankLines_two:
  assumes "10 \<notin> set xs" "10 \<notin> set ys"
  shows "splitBlankLines cur (xs @ [10, 10] @ ys) = [cur @ xs, ys]"
  using assms(1)
proof (induction xs arbitrary: cur)
  case Nil
  have "dropWhile (\<lambda>x. x = 10) ys = ys"
    using assms(2) by (cases ys) auto
  then show ?case
    using splitBlankLines_plain [OF assms(2), of "[]"] by simp
next
  case (Cons x xs)
  then show ?case by simp
qed

lemma collapseWhitespace_plain: "\<forall>c\<in>set s. \<not> isWhiteSpace c \<Longrightarrow> collapseWhitespace s = s"
  by (induction s) auto

lemma trim_plain:
  assumes "s \<noteq> []" "\<not> isWhiteSpace (hd s)" "\<not> isWhiteSpace (last s)"
  shows "trim s = s"
proof -
  have "dropWhile isWhiteSpace s = s"
    using assms(1,2) by (cases s) auto
  moreover have "dropWhile isWhiteSpace (rev s) = rev s"
    using assms(1,3) by (cases "rev s") (auto simp: last_rev [symmetric] hd_rev)
  ultimately show ?thesis
    by (simp add: trim_def)
qed

lemma normalizeWhitespace_plain:
  assumes "s \<noteq> []" "\<forall>c\<in>set s. \<not> isWhiteSpace c"
  shows "normalizeWhitespace s = s"
  using assms by (simp add: normalizeWhitespace_def collapseWhitespace_plain trim_plain)

lemma indexOf_None: "x \<notin> set s \<Longrightarrow> indexOf s x = None"
  by (induction s) auto

text \<open>
  Two paragraphs without white space that do not fit into one chunk together, the second
  one fitting alone: the first is flushed, and the next buffer is its tail of \<open>ov\<close> code
  units, a blank line and the whole second paragraph. Nothing compares this buffer with
  \<open>maxChars\<close>.
\<close>

lemma chunk_overflow:
  assumes a: "a \<noteq> []" "\<forall>c\<in>set a. \<not> isWhiteSpace c"
    and b: "b \<noteq> []" "\<forall>c\<in>set b. \<not> isWhiteSpace c"
    and fit: "int (length a) \<le> m" "int (length b) \<le> m"
    and over: "m < int (length a) + 2 + int (length b)"
    and o: "0 < ov" "ov < int (length a)"
  shows "chunkText (a @ [10, 10] @ b) m ov =
           Some [a, drop (length a - nat ov) a @ [10, 10] @ b]"
proof -
  have ws: "isWhiteSpace 10" "isWhiteSpace 32"
    by (simp_all add: isWhiteSpace_def)
  have n10: "10 \<notin> set a" "10 \<notin> set b" and n32: "32 \<notin> set a"
    using a(2) b(2) ws by auto
  have paras: "filter (\<lambda>p. p \<noteq> []) (map normalizeWhitespace (splitBlankLines [] (a @ [10, 10] @ b))) = [a, b]"
    unfolding splitBlankLines_two [OF n10, of "[]"]
    using a b by (simp add: normalizeWhitespace_plain)
  define t where "t = drop (length a - nat ov) a"
  have t: "t \<noteq> []" "set t \<subseteq> set a"
    using o a(1) by (auto simp: t_def dest: in_set_dropD)
  have tail: "getTailAtWordBoundary a ov = t"
  proof -
    have "jsSlice a (int (length a) - ov) (int (length a)) = t"
      using o by (simp add: jsSlice_def t_def Let_def nat_diff_distrib)
    moreover have "indexOf t 32 = None"
      using t(2) n32 by (intro indexOf_None) auto
    ultimately show ?thesis
      using o by (simp add: getTailAtWordBoundary_def Let_def)
  qed
  have loop: "chunkLoop m ov [a, b] [] [] = Some ([a], t @ [10, 10] @ b)"
    using a(1) b(1) fit over t(1) by (simp add: Let_def tail)
  have "trim a = a"
    using a by (intro trim_plain) (auto simp: hd_in_set last_in_set)
  moreover have "trim (t @ [10, 10] @ b) = t @ [10, 10] @ b"
  proof (rule trim_plain)
    show "t @ [10, 10] @ b \<noteq> []"
      by simp
    have "hd t \<in> set a"
      using t hd_in_set [of t] by auto
    then show "\<not> isWhiteSpace (hd (t @ [10, 10] @ b))"
      using t(1) a(2) by (simp add: hd_append)
    have "last b \<in> set b"
      using b(1) by simp
    then show "\<not> isWhiteSpace (last (t @ [10, 10] @ b))"
      using b by simp
  qed
  ultimately show ?thesis
    unfolding chunkText_def paras Let_def loop
    using a(1) t(1) by (simp add: t_def)
qed

text \<open>
  C3 fails on the code. With the default configuration (\<open>MAX_CHARS = 1800\<close>,
  \<open>OVERLAP_CHARS = 260\<close>) a paragraph of 500 letters followed by a paragraph of 1700
  letters yields a second chunk of 1962 code units: the overlap tail of the first chunk,
  a blank line and the second paragraph.
\<close>

theorem chunk_exceeds_default:
  "chunkText (replicate 500 97 @ [10, 10] @ replicate 1700 98) 1800 260 =
     Some [replicate 500 97, replicate 260 97 @ [10, 10] @ replicate 1700 98] \<and>
   length (replicate 260 97 @ [10, 10] @ replicate 1700 (98::nat)) = 1962"
  using chunk_overflow [of "replicate 500 97" "replicate 1700 98" 1800 260]
  by (simp add: isWhiteSpace_def)


text \<open>
  When the overlap is not smaller than the window, the loop over an oversized paragraph
  starts every window at 0 again and never returns.
\<close>

lemma sliceLoop_stuck:
  assumes "0 < m" "m \<le> ov" "m < int (length p)"
  shows "sliceLoop p m ov 0 chunks = None"
proof (cases "sliceLoop p m ov 0 chunks")
  case None
  then show ?thesis .
next
  case (Some y)
  have "p = p \<and> m = m \<and> ov = ov \<and> (0::int) = 0 \<longrightarrow> False"
  proof (rule sliceLoop.raw_induct
      [where P = "\<lambda>q mx ovl s c y. q = p \<and> mx = m \<and> ovl = ov \<and> s = 0 \<longrightarrow> False", OF _ Some])
    fix f q maxChars overlapChars start c y
    assume IH: "\<And>q mx ovl s c y. f q mx ovl s c = Some y \<Longrightarrow> q = p \<and> mx = m \<and> ovl = ov \<and> s = 0 \<longrightarrow> False"
      and step: "(if start < int (length q)
          then let end = min (start + maxChars) (int (length q));
                   segment = trim (jsSlice q start end);
                   chunks1 = if segment \<noteq> [] then c @ [segment] else c
               in if int (length q) \<le> end then Some chunks1
                  else f q maxChars overlapChars (max 0 (end - overlapChars)) chunks1
          else Some c) = Some y"
    show "q = p \<and> maxChars = m \<and> overlapChars = ov \<and> start = 0 \<longrightarrow> False"
    proof
      assume eq: "q = p \<and> maxChars = m \<and> overlapChars = ov \<and> start = 0"
      with assms step obtain c1 where "f p m ov 0 c1 = Some y"
        by (auto simp: Let_def min_def max_def split: if_splits)
      with IH show False
        by blast
    qed
  qed
  then show ?thesis
    by simp
qed

lemma chunk_never_returns: "chunkText (replicate 12 97) 4 4 = None"
proof -
  have "filter (\<lambda>p. p \<noteq> []) (map normalizeWhitespace (splitBlankLines [] (replicate 12 97))) = [replicate 12 97]"
    by (simp add: splitBlankLines_plain normalizeWhitespace_plain isWhiteSpace_def)
  moreover have "sliceLoop (replicate 12 97) 4 4 0 [] = None"
    by (rule sliceLoop_stuck) simp_all
  ultimately show ?thesis
    by (simp add: chunkText_def Let_def)
qed

end
